theory Spec2Isabelle
  imports Main "HOL-Library.Word"
begin

unbundle bit_operations_syntax

section \<open>Parameter and worker types (pto\_types.h)\<close>

text \<open>
  The two public enumerations of \<^verbatim>\<open>pto_types.h\<close>. Both are
  \<^verbatim>\<open>enum class ... : int32_t\<close> with explicit enumerator values; the
  functions \<open>PTOWorkerType_value\<close> and \<open>PTOParamType_value\<close> give the
  underlying 32-bit value of each enumerator as the header writes it.
\<close>

datatype PTOWorkerType = CUBE | VECTOR

fun PTOWorkerType_value :: "PTOWorkerType \<Rightarrow> 32 word" where
  "PTOWorkerType_value CUBE = 0"
| "PTOWorkerType_value VECTOR = 1"

definition PTO_NUM_WORKER_TYPES :: "32 word" where
  "PTO_NUM_WORKER_TYPES = 2"

datatype PTOParamType = INPUT | OUTPUT | INOUT | SCALAR

fun PTOParamType_value :: "PTOParamType \<Rightarrow> 32 word" where
  "PTOParamType_value INPUT = 0"
| "PTOParamType_value OUTPUT = 1"
| "PTOParamType_value INOUT = 2"
| "PTOParamType_value SCALAR = 3"

text \<open>
  Modelled from the spec: \<^verbatim>\<open>PTOBufferHandle\<close>, \<^verbatim>\<open>TensorDescriptor\<close> and
  \<^verbatim>\<open>make_tensor_bbox\<close> are declared in \<^verbatim>\<open>tensor_descriptor.h\<close>, of which only
  the uses in \<^verbatim>\<open>pto_types.h\<close> are at hand. A buffer handle is the identity of a
  buffer (address, byte size, version); the factory helpers read only its \<open>addr\<close>.
  A tensor descriptor is reduced to its bounding byte range: the address, the size
  and the version handed to \<^verbatim>\<open>make_tensor_bbox\<close>.
\<close>

record PTOBufferHandle =
  addr :: "64 word"
  bh_size :: "32 word"
  bh_version :: "32 word"

record TensorDescriptor =
  td_addr :: "64 word"
  td_size :: "32 word"
  td_version :: "32 word"

definition make_tensor_bbox :: "64 word \<Rightarrow> 32 word \<Rightarrow> 32 word \<Rightarrow> TensorDescriptor" where
  "make_tensor_bbox a sz ver = \<lparr>td_addr = a, td_size = sz, td_version = ver\<rparr>"

text \<open>
  \<^verbatim>\<open>struct PTOParam\<close>. The field \<open>buffer\<close> is a pointer to the handle:
  \<open>None\<close> is \<^verbatim>\<open>nullptr\<close>, \<open>Some buf\<close> is \<^verbatim>\<open>&buf\<close>.
\<close>

record PTOParam =
  ptype :: PTOParamType
  tensor :: TensorDescriptor
  buffer :: "PTOBufferHandle option"
  scalar_value :: "64 word"

text \<open>\<^verbatim>\<open>PTOParam p = {}\<close>: every member value-initialised.\<close>

definition PTOParam_zero :: PTOParam where
  "PTOParam_zero =
     \<lparr>ptype = INPUT,
      tensor = \<lparr>td_addr = 0, td_size = 0, td_version = 0\<rparr>,
      buffer = None,
      scalar_value = 0\<rparr>"

text \<open>
  A failed \<^verbatim>\<open>assert\<close> aborts the program: the factory helpers that assert
  return a sum, \<open>Inl\<close> carrying the assertion's message.
\<close>

datatype assert_failure = AssertionFailed string

definition make_scalar_param :: "64 word \<Rightarrow> PTOParam" where
  "make_scalar_param v =
     (let p = PTOParam_zero;
          p = p\<lparr>ptype := SCALAR\<rparr>;
          p = p\<lparr>buffer := None\<rparr>;
          p = p\<lparr>scalar_value := v\<rparr>
      in p)"

definition make_input_param ::
  "PTOBufferHandle \<Rightarrow> 32 word \<Rightarrow> 32 word \<Rightarrow> assert_failure + PTOParam" where
  "make_input_param buf sz ver =
     (if \<not> (addr buf \<noteq> 0)
      then Inl (AssertionFailed ''INPUT param must have a non-NULL buffer address'')
      else
        let p = PTOParam_zero;
            p = p\<lparr>ptype := INPUT\<rparr>;
            p = p\<lparr>tensor := make_tensor_bbox (addr buf) sz ver\<rparr>;
            p = p\<lparr>buffer := Some buf\<rparr>;
            p = p\<lparr>scalar_value := 0\<rparr>
        in Inr p)"

definition make_output_param ::
  "PTOBufferHandle \<Rightarrow> 32 word \<Rightarrow> 32 word \<Rightarrow> PTOParam" where
  "make_output_param buf sz ver =
     (let p = PTOParam_zero;
          p = p\<lparr>ptype := OUTPUT\<rparr>;
          p = p\<lparr>tensor := make_tensor_bbox (addr buf) sz ver\<rparr>;
          p = p\<lparr>buffer := Some buf\<rparr>;
          p = p\<lparr>scalar_value := 0\<rparr>
      in p)"

definition make_inout_param ::
  "PTOBufferHandle \<Rightarrow> 32 word \<Rightarrow> 32 word \<Rightarrow> assert_failure + PTOParam" where
  "make_inout_param buf sz ver =
     (if \<not> (addr buf \<noteq> 0)
      then Inl (AssertionFailed ''INOUT param must have a non-NULL buffer address'')
      else
        let p = PTOParam_zero;
            p = p\<lparr>ptype := INOUT\<rparr>;
            p = p\<lparr>tensor := make_tensor_bbox (addr buf) sz ver\<rparr>;
            p = p\<lparr>buffer := Some buf\<rparr>;
            p = p\<lparr>scalar_value := 0\<rparr>
        in Inr p)"

text \<open>
  C8. The numeric encodings: parameter kinds are Input = 0, Output = 1, InOut = 2,
  Scalar = 3; the worker classes are the matrix unit (CUBE) with tag 0 and the
  vector unit (VECTOR) with tag 1.
\<close>

theorem enum_encodings:
  "PTOParamType_value INPUT = 0 \<and> PTOParamType_value OUTPUT = 1 \<and>
   PTOParamType_value INOUT = 2 \<and> PTOParamType_value SCALAR = 3 \<and>
   PTOWorkerType_value CUBE = 0 \<and> PTOWorkerType_value VECTOR = 1 \<and>
   inj PTOParamType_value \<and> inj PTOWorkerType_value"
proof -
  have "inj PTOParamType_value"
  proof (rule injI)
    fix x y assume "PTOParamType_value x = PTOParamType_value y"
    then show "x = y" by (cases x; cases y) simp_all
  qed
  moreover have "inj PTOWorkerType_value"
  proof (rule injI)
    fix x y assume "PTOWorkerType_value x = PTOWorkerType_value y"
    then show "x = y" by (cases x; cases y) simp_all
  qed
  ultimately show ?thesis by simp
qed

text \<open>
  C7. The factory contracts. \<open>make_input_param\<close> and \<open>make_inout_param\<close> fail
  their assertion exactly when the buffer address is null, and otherwise build a
  parameter of their kind that points to the buffer; \<open>make_output_param\<close> has no
  assertion and builds an Output parameter for every handle, the null-address one
  included; \<open>make_scalar_param\<close> builds a Scalar parameter carrying the raw value
  and a null buffer pointer.
\<close>

theorem factory_contracts:
  "isl (make_input_param buf sz ver) = (addr buf = 0) \<and>
   isl (make_inout_param buf sz ver) = (addr buf = 0) \<and>
   make_input_param buf sz ver =
     (if addr buf = 0
      then Inl (AssertionFailed ''INPUT param must have a non-NULL buffer address'')
      else Inr \<lparr>ptype = INPUT, tensor = make_tensor_bbox (addr buf) sz ver,
                buffer = Some buf, scalar_value = 0\<rparr>) \<and>
   make_inout_param buf sz ver =
     (if addr buf = 0
      then Inl (AssertionFailed ''INOUT param must have a non-NULL buffer address'')
      else Inr \<lparr>ptype = INOUT, tensor = make_tensor_bbox (addr buf) sz ver,
                buffer = Some buf, scalar_value = 0\<rparr>) \<and>
   make_output_param buf sz ver =
     \<lparr>ptype = OUTPUT, tensor = make_tensor_bbox (addr buf) sz ver,
      buffer = Some buf, scalar_value = 0\<rparr> \<and>
   make_output_param (buf\<lparr>addr := 0\<rparr>) sz ver =
     \<lparr>ptype = OUTPUT, tensor = make_tensor_bbox 0 sz ver,
      buffer = Some (buf\<lparr>addr := 0\<rparr>), scalar_value = 0\<rparr> \<and>
   ptype (make_scalar_param v) = SCALAR \<and>
   buffer (make_scalar_param v) = None \<and>
   scalar_value (make_scalar_param v) = v"
  by (simp add: make_input_param_def make_inout_param_def make_output_param_def
      make_scalar_param_def PTOParam_zero_def Let_def)

section \<open>The simulation timestamp (a2a3sim, inner\_aicpu.h)\<close>

text \<open>
  \<^verbatim>\<open>get_sys_cnt_aicpu\<close> reads the clock and converts the elapsed nanoseconds to
  ticks in \<^verbatim>\<open>uint64_t\<close> arithmetic. The clock reading is the argument
  \<open>elapsed_ns\<close>. The constant \<^verbatim>\<open>PLATFORM_PROF_SYS_CNT_FREQ\<close> comes from
  \<^verbatim>\<open>common/platform_config.h\<close>; it is the parameter \<open>FREQ\<close>, as the 64-bit
  value the multiplications see. \<^verbatim>\<open>std::nano::den\<close> is \<open>10\<^sup>9\<close>.
\<close>

definition kNsPerSec :: "64 word" where
  "kNsPerSec = 1000000000"

definition get_sys_cnt_aicpu :: "64 word \<Rightarrow> 64 word \<Rightarrow> 64 word" where
  "get_sys_cnt_aicpu FREQ elapsed_ns =
     (let seconds = elapsed_ns div kNsPerSec;
          remaining_ns = elapsed_ns mod kNsPerSec;
          ticks = seconds * FREQ + (remaining_ns * FREQ) div kNsPerSec
      in ticks)"






text \<open>
  The same at 2 GHz and \<open>10\<^sup>1\<^sup>9\<close> ns, where the exact count is \<open>2 * 10\<^sup>1\<^sup>9\<close>.
\<close>

lemma get_sys_cnt_aicpu_wraps:
  "get_sys_cnt_aicpu 2000000000 10000000000000000000 = 1553255926290448384"
  by (simp add: get_sys_cnt_aicpu_def kNsPerSec_def)

section \<open>Encoding a float as a scalar parameter (example\_orchestration.cpp)\<close>

text \<open>
  \<^verbatim>\<open>float_to_u64\<close> writes through a union of a \<^verbatim>\<open>float\<close> and a
  \<^verbatim>\<open>uint64_t\<close>. The union is eight bytes of storage that both members share
  from offset 0; the targets (x86-64 and AArch64) store integers and floats
  little-endian. A \<^verbatim>\<open>float\<close> is represented by its IEEE-754 binary32 bit
  pattern, a 32-bit word: the function only copies the pattern, it does no
  floating-point arithmetic.
\<close>

type_synonym byte = "8 word"

definition store_le :: "nat \<Rightarrow> 'a::len word \<Rightarrow> byte list" where
  "store_le n v = map (\<lambda>i. ucast (drop_bit (8 * i) v)) [0..<n]"

fun load_le :: "byte list \<Rightarrow> 64 word" where
  "load_le [] = 0"
| "load_le (b # bs) = ucast b OR push_bit 8 (load_le bs)"

definition float_to_u64 :: "32 word \<Rightarrow> 64 word" where
  "float_to_u64 f =
     (let conv = store_le 8 (0 :: 64 word);
          conv = store_le 4 f @ drop 4 conv
      in load_le conv)"

lemma upt4: "[0..<4] = [0, 1, 2, 3]"
  by (simp add: upt_rec)

lemma upt8: "[0..<8] = [0, 1, 2, 3, 4, 5, 6, 7]"
  by (simp add: upt_rec)

lemma float_to_u64_expand:
  "float_to_u64 f =
     ucast (ucast f :: byte) OR push_bit 8
       (ucast (ucast (drop_bit 8 f) :: byte) OR push_bit 8
         (ucast (ucast (drop_bit 16 f) :: byte) OR push_bit 8
           (ucast (ucast (drop_bit 24 f) :: byte))))"
  unfolding float_to_u64_def store_le_def Let_def upt4 upt8 by simp

lemma float_to_u64_ucast: "float_to_u64 f = ucast f"
proof (rule bit_word_eqI)
  fix n :: nat
  assume "n < LENGTH(64)"
  have hi: "\<not> bit f k" if "32 \<le> k" for k
    using bit_imp_le_length [of f k] that by auto
  consider "n < 8" | "8 \<le> n" "n < 16" | "16 \<le> n" "n < 24" | "24 \<le> n" "n < 32" | "32 \<le> n"
    by linarith
  then show "bit (float_to_u64 f) n = bit (ucast f :: 64 word) n"
  proof cases
    case 1
    then show ?thesis by (simp add: float_to_u64_expand bit_simps)
  next
    case 2
    define m where "m = n - 8"
    with \<open>8 \<le> n\<close> \<open>n < 16\<close> have "n = 8 + m" "m < 8" by simp_all
    then show ?thesis by (simp add: float_to_u64_expand bit_simps)
  next
    case 3
    define m where "m = n - 16"
    with \<open>16 \<le> n\<close> \<open>n < 24\<close> have "n = 16 + m" "m < 8" by simp_all
    then show ?thesis by (simp add: float_to_u64_expand bit_simps)
  next
    case 4
    define m where "m = n - 24"
    with \<open>24 \<le> n\<close> \<open>n < 32\<close> have "n = 24 + m" "m < 8" by simp_all
    then show ?thesis by (simp add: float_to_u64_expand bit_simps)
  next
    case 5
    define m where "m = n - 32"
    with \<open>32 \<le> n\<close> have "n = 32 + m" by simp
    then show ?thesis using hi [of n] by (auto simp add: float_to_u64_expand bit_simps)
  qed
qed

text \<open>
  C10. For every 32-bit float \<open>f\<close> (given by its bit pattern), the upper 32 bits of
  \<open>float_to_u64 f\<close> are zero and its lower 32 bits are the bit pattern of \<open>f\<close>.
\<close>

theorem float_to_u64_halves:
  "drop_bit 32 (float_to_u64 f) = 0 \<and> (ucast (float_to_u64 f) :: 32 word) = f"
proof -
  have hi: "\<not> bit f k" if "32 \<le> k" for k
    using bit_imp_le_length [of f k] that by auto
  have "drop_bit 32 (ucast f :: 64 word) = 0"
    by (rule bit_word_eqI) (simp add: bit_simps hi)
  moreover have "(ucast (ucast f :: 64 word) :: 32 word) = f"
    by (rule bit_word_eqI) (simp add: bit_simps)
  ultimately show ?thesis by (simp add: float_to_u64_ucast)
qed

section \<open>The orchestration runtime\<close>

text \<open>
  Modelled from the spec: the runtime that \<^verbatim>\<open>example_orchestration.cpp\<close> calls
  (\<^verbatim>\<open>pto_runtime2.h\<close>, \<^verbatim>\<open>pto_shared_memory.h\<close> and their implementation: overlap
  checker, dependency index, scoped arena, task window, ready queues, orchestration
  context) is not among the sources at hand; only this caller and the parameter
  types are. Every definition of this section follows the specification, sections 3
  to 7: its data model, its component contracts and its error taxonomy. Addresses,
  sizes, versions and task ids are natural numbers, address 0 is the null address,
  and a task id is the position of the task in the order of submission.
\<close>

datatype error =
  ArgCountMismatch | CapacityExceeded | InvalidParameter | ScopeImbalance | TaskExecutionFailure

subsection \<open>Buffer descriptor and overlap checker\<close>

text \<open>
  Modelled from the spec: the buffer descriptor and the overlap checker (section
  4.1). A region is an address range with a version tag; two regions alias when
  their versions match and their byte ranges intersect, and the hazard class follows
  from the kinds of the earlier and the later access.
\<close>

record BufferHandle =
  h_addr :: nat
  h_size :: nat
  h_version :: nat

definition ranges_intersect :: "BufferHandle \<Rightarrow> BufferHandle \<Rightarrow> bool" where
  "ranges_intersect r1 r2 \<longleftrightarrow>
     max (h_addr r1) (h_addr r2) < min (h_addr r1 + h_size r1) (h_addr r2 + h_size r2)"

definition aliases :: "BufferHandle \<Rightarrow> BufferHandle \<Rightarrow> bool" where
  "aliases r1 r2 \<longleftrightarrow> h_version r1 = h_version r2 \<and> ranges_intersect r1 r2"

datatype access = Read | Write

datatype hazard = ReadAfterWrite | WriteAfterWrite | WriteAfterRead

fun hazard_class :: "access \<Rightarrow> access \<Rightarrow> hazard option" where
  "hazard_class Write Read = Some ReadAfterWrite"
| "hazard_class Write Write = Some WriteAfterWrite"
| "hazard_class Read Write = Some WriteAfterRead"
| "hazard_class Read Read = None"

definition check_overlap ::
  "access \<Rightarrow> BufferHandle \<Rightarrow> access \<Rightarrow> BufferHandle \<Rightarrow> hazard option" where
  "check_overlap earlier r1 later r2 =
     (if aliases r1 r2 then hazard_class earlier later else None)"

subsection \<open>Scoped arena allocator\<close>

text \<open>
  Modelled from the spec: the scoped arena allocator (section 4.3). A scope records
  the arena offset at its opening, the handles allocated while it is the innermost
  scope and the tasks submitted in it; the scopes are a stack, innermost first.
  \<open>arena_open_scope\<close> pushes the current offset as a mark. \<open>arena_allocate\<close> bumps
  the offset and returns a handle with a fresh version, and fails with
  \<open>CapacityExceeded\<close> when the backing buffer is exhausted. \<open>arena_close_scope\<close>
  pops the innermost scope, resets the offset to its mark and marks the handles of
  that scope as freed. With no scope open, both fail with \<open>ScopeImbalance\<close>.
\<close>

record Scope =
  s_mark :: nat
  s_bufs :: "BufferHandle list"
  s_tasks :: "nat list"

record Arena =
  a_base :: nat
  a_capacity :: nat
  a_offset :: nat
  a_next_version :: nat
  a_scopes :: "Scope list"
  a_freed :: "BufferHandle list"

definition arena_init :: "nat \<Rightarrow> nat \<Rightarrow> Arena" where
  "arena_init base cap =
     \<lparr>a_base = base, a_capacity = cap, a_offset = 0, a_next_version = 0,
      a_scopes = [], a_freed = []\<rparr>"

definition arena_open_scope :: "Arena \<Rightarrow> Arena" where
  "arena_open_scope a =
     a\<lparr>a_scopes := \<lparr>s_mark = a_offset a, s_bufs = [], s_tasks = []\<rparr> # a_scopes a\<rparr>"

definition arena_allocate :: "nat \<Rightarrow> Arena \<Rightarrow> error + (BufferHandle \<times> Arena)" where
  "arena_allocate sz a =
     (case a_scopes a of
        [] \<Rightarrow> Inl ScopeImbalance
      | s # ss \<Rightarrow>
          if a_capacity a < a_offset a + sz then Inl CapacityExceeded
          else
            let h = \<lparr>h_addr = a_base a + a_offset a, h_size = sz,
                     h_version = a_next_version a\<rparr>
            in Inr (h, a\<lparr>a_offset := a_offset a + sz,
                          a_next_version := a_next_version a + 1,
                          a_scopes := s\<lparr>s_bufs := s_bufs s @ [h]\<rparr> # ss\<rparr>))"

definition arena_close_scope :: "Arena \<Rightarrow> error + Arena" where
  "arena_close_scope a =
     (case a_scopes a of
        [] \<Rightarrow> Inl ScopeImbalance
      | s # ss \<Rightarrow>
          Inr (a\<lparr>a_offset := s_mark s, a_scopes := ss,
                 a_freed := a_freed a @ s_bufs s\<rparr>))"

definition live_handles :: "Arena \<Rightarrow> BufferHandle list" where
  "live_handles a = concat (map s_bufs (a_scopes a))"

subsection \<open>Dependency index\<close>

text \<open>
  Modelled from the spec: the dependency index (section 4.2). An entry holds a
  region, its last writer and the readers since that writer. A read depends on the
  last writer of every aliasing entry and registers the task as a reader; a write
  depends on the last writer and on every reader of the aliasing entries, then
  becomes their last writer and clears their readers. An access that aliases no
  entry adds an entry for its region. Scalars bypass the index.
\<close>

record RegionMapEntry =
  e_region :: BufferHandle
  e_writer :: "nat option"
  e_readers :: "nat list"

definition deps_of_entry :: "access \<Rightarrow> BufferHandle \<Rightarrow> RegionMapEntry \<Rightarrow> nat list" where
  "deps_of_entry acc r e =
     (case e_writer e of
        None \<Rightarrow> []
      | Some w \<Rightarrow> if check_overlap Write (e_region e) acc r \<noteq> None then [w] else []) @
     (if check_overlap Read (e_region e) acc r \<noteq> None then e_readers e else [])"

definition update_entry :: "nat \<Rightarrow> access \<Rightarrow> BufferHandle \<Rightarrow> RegionMapEntry \<Rightarrow> RegionMapEntry" where
  "update_entry tid acc r e =
     (if aliases (e_region e) r
      then (case acc of
              Read \<Rightarrow> e\<lparr>e_readers := List.insert tid (e_readers e)\<rparr>
            | Write \<Rightarrow> e\<lparr>e_writer := Some tid, e_readers := []\<rparr>)
      else e)"

definition new_entry :: "nat \<Rightarrow> access \<Rightarrow> BufferHandle \<Rightarrow> RegionMapEntry" where
  "new_entry tid acc r =
     (case acc of
        Read \<Rightarrow> \<lparr>e_region = r, e_writer = None, e_readers = [tid]\<rparr>
      | Write \<Rightarrow> \<lparr>e_region = r, e_writer = Some tid, e_readers = []\<rparr>)"

definition access_region ::
  "nat \<Rightarrow> access \<Rightarrow> BufferHandle \<Rightarrow> RegionMapEntry list \<Rightarrow> nat list \<times> RegionMapEntry list" where
  "access_region tid acc r rm =
     (concat (map (deps_of_entry acc r) rm),
      if list_ex (\<lambda>e. aliases (e_region e) r) rm
      then map (update_entry tid acc r) rm
      else rm @ [new_entry tid acc r])"

record ParamDescriptor =
  pd_kind :: PTOParamType
  pd_region :: BufferHandle
  pd_scalar :: "64 word"

fun process_param ::
  "nat \<Rightarrow> ParamDescriptor \<Rightarrow> RegionMapEntry list \<Rightarrow> nat list \<times> RegionMapEntry list" where
  "process_param tid p rm =
     (case pd_kind p of
        SCALAR \<Rightarrow> ([], rm)
      | INPUT \<Rightarrow> access_region tid Read (pd_region p) rm
      | OUTPUT \<Rightarrow> access_region tid Write (pd_region p) rm
      | INOUT \<Rightarrow>
          (let (d1, rm1) = access_region tid Read (pd_region p) rm;
               (d2, rm2) = access_region tid Write (pd_region p) rm1
           in (d1 @ d2, rm2)))"

fun process_params ::
  "nat \<Rightarrow> ParamDescriptor list \<Rightarrow> RegionMapEntry list \<Rightarrow> nat list \<times> RegionMapEntry list" where
  "process_params tid [] rm = ([], rm)"
| "process_params tid (p # ps) rm =
     (let (d1, rm1) = process_param tid p rm;
          (d2, rm2) = process_params tid ps rm1
      in (d1 @ d2, rm2))"

subsection \<open>Task graph\<close>

text \<open>
  Modelled from the spec: the task graph and \<open>submit_task\<close> (sections 3, 4.2, 4.4
  and 4.6). The task window holds the submitted tasks that are not yet retired, at
  most \<open>window_capacity\<close> of them; the edge pool holds at most \<open>edge_capacity\<close>
  edges. \<open>add_edge\<close> inserts an edge once per ordered pair, never from a task to
  itself, and counts it in the new task's counter when the predecessor is not yet
  completed. \<open>submit_task\<close> fails on a full window, resolves the parameters (a null
  Input or InOut address is \<open>InvalidParameter\<close>, a null Output address is allocated
  from the arena), queries and updates the dependency index, attaches the edges and
  inserts the task, \<open>Ready\<close> and queued when its counter is zero. A failed submission
  leaves the context as it was.
\<close>

datatype task_state = Pending | Ready | Dispatched | Running | Completed | Failed

record Task =
  t_func :: int
  t_worker :: PTOWorkerType
  t_kernel :: string
  t_params :: "ParamDescriptor list"
  t_counter :: int
  t_state :: task_state

record Context =
  tasks :: "Task list"
  retired :: nat
  window_capacity :: nat
  edges :: "(nat \<times> nat) list"
  edge_capacity :: nat
  region_map :: "RegionMapEntry list"
  arena :: Arena
  ready_queue :: "PTOWorkerType \<Rightarrow> nat list"
  aborted :: bool

definition task_completed :: "Context \<Rightarrow> nat \<Rightarrow> bool" where
  "task_completed ctx a \<longleftrightarrow> a < length (tasks ctx) \<and> t_state (tasks ctx ! a) = Completed"

definition add_edge ::
  "Context \<Rightarrow> nat \<Rightarrow> nat \<Rightarrow> (nat \<times> nat) list \<times> int \<Rightarrow> error + ((nat \<times> nat) list \<times> int)" where
  "add_edge ctx a b acc =
     (case acc of (es, cnt) \<Rightarrow>
        if a = b \<or> (a, b) \<in> set es then Inr (es, cnt)
        else if edge_capacity ctx \<le> length es then Inl CapacityExceeded
        else Inr (es @ [(a, b)], if task_completed ctx a then cnt else cnt + 1))"

fun attach_edges ::
  "Context \<Rightarrow> nat \<Rightarrow> nat list \<Rightarrow> (nat \<times> nat) list \<times> int \<Rightarrow> error + ((nat \<times> nat) list \<times> int)" where
  "attach_edges ctx b [] acc = Inr acc"
| "attach_edges ctx b (a # as) acc =
     (case add_edge ctx a b acc of
        Inl e \<Rightarrow> Inl e
      | Inr acc' \<Rightarrow> attach_edges ctx b as acc')"

definition resolve_param ::
  "ParamDescriptor \<Rightarrow> Arena \<Rightarrow> error + (ParamDescriptor \<times> Arena)" where
  "resolve_param p a =
     (case pd_kind p of
        SCALAR \<Rightarrow> Inr (p, a)
      | OUTPUT \<Rightarrow>
          if h_addr (pd_region p) = 0
          then (case arena_allocate (h_size (pd_region p)) a of
                  Inl e \<Rightarrow> Inl e
                | Inr (h, a1) \<Rightarrow> Inr (p\<lparr>pd_region := h\<rparr>, a1))
          else Inr (p, a)
      | _ \<Rightarrow>
          if h_addr (pd_region p) = 0 then Inl InvalidParameter else Inr (p, a))"

fun resolve_params ::
  "ParamDescriptor list \<Rightarrow> Arena \<Rightarrow> error + (ParamDescriptor list \<times> Arena)" where
  "resolve_params [] a = Inr ([], a)"
| "resolve_params (p # ps) a =
     (case resolve_param p a of
        Inl e \<Rightarrow> Inl e
      | Inr (p', a1) \<Rightarrow>
          (case resolve_params ps a1 of
             Inl e \<Rightarrow> Inl e
           | Inr (ps', a2) \<Rightarrow> Inr (p' # ps', a2)))"

definition window_full :: "Context \<Rightarrow> bool" where
  "window_full ctx \<longleftrightarrow> window_capacity ctx \<le> length (tasks ctx) - retired ctx"

definition note_task :: "nat \<Rightarrow> Arena \<Rightarrow> Arena" where
  "note_task tid a =
     (case a_scopes a of
        [] \<Rightarrow> a
      | s # ss \<Rightarrow> a\<lparr>a_scopes := s\<lparr>s_tasks := s_tasks s @ [tid]\<rparr> # ss\<rparr>)"

definition submit_task ::
  "int \<Rightarrow> PTOWorkerType \<Rightarrow> string \<Rightarrow> ParamDescriptor list \<Rightarrow> Context \<Rightarrow> (error + nat) \<times> Context" where
  "submit_task fid w k params ctx =
     (if window_full ctx then (Inl CapacityExceeded, ctx)
      else
        case resolve_params params (arena ctx) of
          Inl e \<Rightarrow> (Inl e, ctx)
        | Inr (ps, ar) \<Rightarrow>
            let tid = length (tasks ctx);
                (preds, rm) = process_params tid ps (region_map ctx)
            in case attach_edges ctx tid preds (edges ctx, 0) of
                 Inl e \<Rightarrow> (Inl e, ctx)
               | Inr (es, cnt) \<Rightarrow>
                   let t = \<lparr>t_func = fid, t_worker = w, t_kernel = k, t_params = ps,
                            t_counter = cnt,
                            t_state = (if cnt = 0 then Ready else Pending)\<rparr>
                   in (Inr tid,
                       ctx\<lparr>tasks := tasks ctx @ [t],
                           edges := es,
                           region_map := rm,
                           arena := note_task tid ar,
                           ready_queue :=
                             (if cnt = 0
                              then (ready_queue ctx)(w := ready_queue ctx w @ [tid])
                              else ready_queue ctx)\<rparr>))"

subsection \<open>Orchestration context\<close>

text \<open>
  Modelled from the spec: the session operations (sections 4.6, 5 and 6). The fields
  of \<open>BeginInfo\<close> are those the example fills in. \<open>orch_begin\<close> checks the argument
  count and opens the outermost scope, \<open>orch_end\<close> closes it. \<open>close_scope\<close> is
  valid on an inner scope only, and only when every task submitted in that scope has
  at least been dispatched; it closes the arena scope and removes the index entries
  whose region lies in a freed buffer.
\<close>

record BeginInfo =
  sm_ptr :: nat
  args :: "64 word list"
  arg_count :: int
  expected_arg_count :: int
  task_window_size :: nat
  dep_list_pool_size :: nat
  heap_size :: nat
  gm_heap_ptr :: nat

definition orch_begin :: "BeginInfo \<Rightarrow> error + Context" where
  "orch_begin info =
     (if arg_count info \<noteq> expected_arg_count info then Inl ArgCountMismatch
      else Inr \<lparr>tasks = [], retired = 0, window_capacity = task_window_size info,
                edges = [], edge_capacity = dep_list_pool_size info,
                region_map = [],
                arena = arena_open_scope (arena_init (gm_heap_ptr info) (heap_size info)),
                ready_queue = (\<lambda>w. []), aborted = False\<rparr>)"

definition open_scope :: "Context \<Rightarrow> Context" where
  "open_scope ctx = ctx\<lparr>arena := arena_open_scope (arena ctx)\<rparr>"

definition unresolved :: "Context \<Rightarrow> nat \<Rightarrow> bool" where
  "unresolved ctx t \<longleftrightarrow>
     t < length (tasks ctx) \<and> t_state (tasks ctx ! t) \<in> {Pending, Ready}"

definition lies_in :: "BufferHandle \<Rightarrow> BufferHandle \<Rightarrow> bool" where
  "lies_in r h \<longleftrightarrow>
     h_version r = h_version h \<and> h_addr h \<le> h_addr r \<and>
     h_addr r + h_size r \<le> h_addr h + h_size h"

definition pop_scope :: "Context \<Rightarrow> error + Context" where
  "pop_scope ctx =
     (case a_scopes (arena ctx) of
        [] \<Rightarrow> Inl ScopeImbalance
      | s # ss \<Rightarrow>
          if list_ex (unresolved ctx) (s_tasks s) then Inl ScopeImbalance
          else
            (case arena_close_scope (arena ctx) of
               Inl e \<Rightarrow> Inl e
             | Inr ar \<Rightarrow>
                 Inr (ctx\<lparr>arena := ar,
                          region_map :=
                            filter (\<lambda>e. \<not> list_ex (lies_in (e_region e)) (s_bufs s))
                              (region_map ctx)\<rparr>)))"

definition close_scope :: "Context \<Rightarrow> error + Context" where
  "close_scope ctx =
     (if length (a_scopes (arena ctx)) \<le> 1 then Inl ScopeImbalance else pop_scope ctx)"

definition orch_end :: "Context \<Rightarrow> error + Context" where
  "orch_end ctx =
     (if length (a_scopes (arena ctx)) \<noteq> 1 then Inl ScopeImbalance else pop_scope ctx)"

subsection \<open>Ready queues and the countdown engine\<close>

text \<open>
  Modelled from the spec: the per-task state machine and the dispatcher (sections
  4.4 and 4.5). There is one FIFO ready queue per worker class. Completion
  decrements the counter of every dependent and makes it \<open>Ready\<close> and queued when
  the counter reaches zero; a failure is terminal and aborts the session. An
  execution is a list of actions of the builder and of the scheduler agents, in any
  interleaving; \<open>step\<close> is \<open>None\<close> when the action is not possible or fails.
\<close>

definition set_state :: "nat \<Rightarrow> task_state \<Rightarrow> Context \<Rightarrow> Context" where
  "set_state t st ctx = ctx\<lparr>tasks := (tasks ctx)[t := (tasks ctx ! t)\<lparr>t_state := st\<rparr>]\<rparr>"

definition push_ready :: "nat \<Rightarrow> Context \<Rightarrow> Context" where
  "push_ready t ctx =
     (let w = t_worker (tasks ctx ! t)
      in ctx\<lparr>ready_queue := (ready_queue ctx)(w := ready_queue ctx w @ [t])\<rparr>)"

definition dispatch :: "PTOWorkerType \<Rightarrow> Context \<Rightarrow> Context option" where
  "dispatch w ctx =
     (case ready_queue ctx w of
        [] \<Rightarrow> None
      | t # q \<Rightarrow> Some (set_state t Dispatched (ctx\<lparr>ready_queue := (ready_queue ctx)(w := q)\<rparr>)))"

definition start_task :: "nat \<Rightarrow> Context \<Rightarrow> Context option" where
  "start_task t ctx =
     (if t < length (tasks ctx) \<and> t_state (tasks ctx ! t) = Dispatched
      then Some (set_state t Running ctx) else None)"

definition notify_dependent :: "nat \<Rightarrow> Context \<Rightarrow> Context" where
  "notify_dependent b ctx =
     (let tk = tasks ctx ! b; c = t_counter tk - 1
      in if c = 0
         then push_ready b (ctx\<lparr>tasks := (tasks ctx)[b := tk\<lparr>t_counter := c, t_state := Ready\<rparr>]\<rparr>)
         else ctx\<lparr>tasks := (tasks ctx)[b := tk\<lparr>t_counter := c\<rparr>]\<rparr>)"

definition outbound :: "nat \<Rightarrow> (nat \<times> nat) list \<Rightarrow> nat list" where
  "outbound t es = map snd (filter (\<lambda>e. fst e = t) es)"

definition complete_task :: "nat \<Rightarrow> Context \<Rightarrow> Context option" where
  "complete_task t ctx =
     (if t < length (tasks ctx) \<and> t_state (tasks ctx ! t) = Running
      then Some (fold notify_dependent (outbound t (edges ctx)) (set_state t Completed ctx))
      else None)"

definition fail_task :: "nat \<Rightarrow> Context \<Rightarrow> Context option" where
  "fail_task t ctx =
     (if t < length (tasks ctx) \<and> t_state (tasks ctx ! t) = Running
      then Some ((set_state t Failed ctx)\<lparr>aborted := True\<rparr>) else None)"

definition retire :: "Context \<Rightarrow> Context option" where
  "retire ctx =
     (if retired ctx < length (tasks ctx) \<and> t_state (tasks ctx ! retired ctx) = Completed
      then Some (ctx\<lparr>retired := retired ctx + 1\<rparr>) else None)"

datatype action =
    Submit int PTOWorkerType string "ParamDescriptor list"
  | OpenScope
  | CloseScope
  | Dispatch PTOWorkerType
  | Start nat
  | Complete nat
  | Fail nat
  | Retire

fun sum_to_option :: "'e + 'a \<Rightarrow> 'a option" where
  "sum_to_option (Inl e) = None"
| "sum_to_option (Inr x) = Some x"

fun do_action :: "action \<Rightarrow> Context \<Rightarrow> Context option" where
  "do_action (Submit fid w k ps) ctx =
     (case submit_task fid w k ps ctx of
        (Inl e, _) \<Rightarrow> None
      | (Inr tid, ctx') \<Rightarrow> Some ctx')"
| "do_action OpenScope ctx = Some (open_scope ctx)"
| "do_action CloseScope ctx = sum_to_option (close_scope ctx)"
| "do_action (Dispatch w) ctx = dispatch w ctx"
| "do_action (Start t) ctx = start_task t ctx"
| "do_action (Complete t) ctx = complete_task t ctx"
| "do_action (Fail t) ctx = fail_task t ctx"
| "do_action Retire ctx = retire ctx"

definition step :: "action \<Rightarrow> Context \<Rightarrow> Context option" where
  "step a ctx = (if aborted ctx then None else do_action a ctx)"

fun run :: "action list \<Rightarrow> Context \<Rightarrow> Context option" where
  "run [] ctx = Some ctx"
| "run (a # as) ctx = (case step a ctx of None \<Rightarrow> None | Some ctx' \<Rightarrow> run as ctx')"

subsection \<open>Arena runs and version monotonicity\<close>

text \<open>
  A run of the arena is a list of its three operations; it returns the handles it
  allocated, in order, or the first error. A reclaim/reallocate cycle opens a scope,
  allocates in it and closes it, so that the next cycle allocates at the same offset.
\<close>

datatype arena_op = AOpen | AAlloc nat | AClose

fun arena_run :: "arena_op list \<Rightarrow> Arena \<Rightarrow> error + (BufferHandle list \<times> Arena)" where
  "arena_run [] a = Inr ([], a)"
| "arena_run (AOpen # ops) a = arena_run ops (arena_open_scope a)"
| "arena_run (AAlloc sz # ops) a =
     (case arena_allocate sz a of
        Inl e \<Rightarrow> Inl e
      | Inr (h, a1) \<Rightarrow>
          (case arena_run ops a1 of
             Inl e \<Rightarrow> Inl e
           | Inr (hs, a2) \<Rightarrow> Inr (h # hs, a2)))"
| "arena_run (AClose # ops) a =
     (case arena_close_scope a of
        Inl e \<Rightarrow> Inl e
      | Inr a1 \<Rightarrow> arena_run ops a1)"

definition realloc_cycles :: "nat \<Rightarrow> nat \<Rightarrow> arena_op list" where
  "realloc_cycles n sz = concat (replicate n [AOpen, AAlloc sz, AClose])"

lemma arena_allocate_Inr:
  assumes "arena_allocate sz a = Inr (h, a1)"
  shows "h = \<lparr>h_addr = a_base a + a_offset a, h_size = sz, h_version = a_next_version a\<rparr>"
    and "a_next_version a1 = a_next_version a + 1"
    and "a_offset a1 = a_offset a + sz"
    and "a_offset a + sz \<le> a_capacity a"
    and "a_base a1 = a_base a" and "a_capacity a1 = a_capacity a" and "a_freed a1 = a_freed a"
    and "\<exists>s ss. a_scopes a = s # ss \<and> a_scopes a1 = s\<lparr>s_bufs := s_bufs s @ [h]\<rparr> # ss"
  using assms by (auto simp: arena_allocate_def Let_def split: list.splits if_splits)

lemma arena_close_scope_Inr:
  assumes "arena_close_scope a = Inr a1"
  shows "\<exists>s ss. a_scopes a = s # ss \<and>
           a1 = a\<lparr>a_offset := s_mark s, a_scopes := ss, a_freed := a_freed a @ s_bufs s\<rparr>"
  using assms by (auto simp: arena_close_scope_def split: list.splits)

lemma arena_run_versions:
  "arena_run ops a = Inr (hs, a') \<Longrightarrow>
     a_next_version a \<le> a_next_version a' \<and>
     (\<forall>h\<in>set hs. a_next_version a \<le> h_version h \<and> h_version h < a_next_version a') \<and>
     sorted_wrt (\<lambda>x y. h_version x < h_version y) hs"
proof (induction ops a arbitrary: hs a' rule: arena_run.induct)
  case (1 a)
  then show ?case by simp
next
  case (2 ops a)
  then show ?case by (simp add: arena_open_scope_def)
next
  case (3 sz ops a)
  from "3.prems" obtain h a1 hs1 where
    al: "arena_allocate sz a = Inr (h, a1)" and
    rn: "arena_run ops a1 = Inr (hs1, a')" and
    hs: "hs = h # hs1"
    by (auto split: sum.splits)
  from "3.IH" [OF al refl rn] have IH:
    "a_next_version a1 \<le> a_next_version a'"
    "\<forall>h\<in>set hs1. a_next_version a1 \<le> h_version h \<and> h_version h < a_next_version a'"
    "sorted_wrt (\<lambda>x y. h_version x < h_version y) hs1"
    by simp_all
  have hv: "h_version h = a_next_version a" and nv: "a_next_version a1 = a_next_version a + 1"
    using arena_allocate_Inr(1,2) [OF al] by simp_all
  show ?case using IH hv nv hs by (auto simp: less_eq_Suc_le)
next
  case (4 ops a)
  from "4.prems" obtain a1 where
    cl: "arena_close_scope a = Inr a1" and rn: "arena_run ops a1 = Inr (hs, a')"
    by (auto split: sum.splits)
  from arena_close_scope_Inr [OF cl] have "a_next_version a1 = a_next_version a" by auto
  with "4.IH" [OF cl rn] show ?case by simp
qed

lemma realloc_cycle_step:
  assumes "a_offset a + sz \<le> a_capacity a"
  shows "arena_run ([AOpen, AAlloc sz, AClose] @ ops) a =
     (case arena_run ops
             (a\<lparr>a_next_version := a_next_version a + 1,
                a_freed := a_freed a @
                  [\<lparr>h_addr = a_base a + a_offset a, h_size = sz, h_version = a_next_version a\<rparr>]\<rparr>) of
        Inl e \<Rightarrow> Inl e
      | Inr (hs, a2) \<Rightarrow>
          Inr (\<lparr>h_addr = a_base a + a_offset a, h_size = sz, h_version = a_next_version a\<rparr> # hs, a2))"
  using assms
  by (simp add: arena_open_scope_def arena_allocate_def arena_close_scope_def Let_def)

lemma realloc_cycles_run:
  assumes "a_offset a + sz \<le> a_capacity a"
  shows "\<exists>a'. arena_run (realloc_cycles n sz) a =
           Inr (map (\<lambda>k. \<lparr>h_addr = a_base a + a_offset a, h_size = sz,
                           h_version = a_next_version a + k\<rparr>) [0..<n], a') \<and>
              a_offset a' = a_offset a \<and> a_scopes a' = a_scopes a"
  using assms
proof (induction n arbitrary: a)
  case 0
  then show ?case by (simp add: realloc_cycles_def)
next
  case (Suc n)
  let ?a1 = "a\<lparr>a_next_version := a_next_version a + 1,
                a_freed := a_freed a @
                  [\<lparr>h_addr = a_base a + a_offset a, h_size = sz, h_version = a_next_version a\<rparr>]\<rparr>"
  have "a_offset ?a1 + sz \<le> a_capacity ?a1" using Suc.prems by simp
  from Suc.IH [OF this] obtain a' where
    r: "arena_run (realloc_cycles n sz) ?a1 =
          Inr (map (\<lambda>k. \<lparr>h_addr = a_base a + a_offset a, h_size = sz,
                           h_version = a_next_version a + 1 + k\<rparr>) [0..<n], a')"
    and o: "a_offset a' = a_offset a" "a_scopes a' = a_scopes a"
    by auto
  have c: "realloc_cycles (Suc n) sz = [AOpen, AAlloc sz, AClose] @ realloc_cycles n sz"
    by (simp add: realloc_cycles_def)
  have m: "map (\<lambda>k. \<lparr>h_addr = a_base a + a_offset a, h_size = sz,
                           h_version = a_next_version a + k\<rparr>) [0..<Suc n] =
        \<lparr>h_addr = a_base a + a_offset a, h_size = sz, h_version = a_next_version a\<rparr> #
        map (\<lambda>k. \<lparr>h_addr = a_base a + a_offset a, h_size = sz,
                           h_version = a_next_version a + 1 + k\<rparr>) [0..<n]"
    by (simp add: map_upt_Suc del: upt_Suc)
  show ?case
    unfolding c realloc_cycle_step [OF Suc.prems] r m using o by simp
qed

lemma realloc_cycles_fit:
  assumes "arena_run (realloc_cycles n sz) a = Inr (hs, a')" and "0 < n"
  shows "a_offset a + sz \<le> a_capacity a"
proof -
  from assms(2) obtain m where n: "n = Suc m" by (cases n) auto
  have "realloc_cycles n sz = AOpen # AAlloc sz # AClose # realloc_cycles m sz"
    by (simp add: realloc_cycles_def n)
  with assms(1) show ?thesis
    by (auto simp: arena_open_scope_def arena_allocate_def Let_def split: if_splits sum.splits)
qed

text \<open>
  C6. For every \<open>n\<close> and every run of \<open>n\<close> reclaim/reallocate cycles, the run
  allocates \<open>n\<close> handles, every one of them at the same arena offset, and each
  successive handle carries a strictly greater version than every earlier occupant
  of the slot.
\<close>

theorem version_monotone:
  assumes "arena_run (realloc_cycles n sz) a = Inr (hs, a')"
  shows "length hs = n \<and>
         (\<forall>i<n. h_addr (hs ! i) = a_base a + a_offset a) \<and>
         (\<forall>i j. i < j \<and> j < n \<longrightarrow> h_version (hs ! i) < h_version (hs ! j))"
proof (cases "n = 0")
  case True
  with assms show ?thesis by (simp add: realloc_cycles_def)
next
  case False
  then have "a_offset a + sz \<le> a_capacity a"
    using realloc_cycles_fit [OF assms] by simp
  from realloc_cycles_run [OF this, of n] assms have
    "hs = map (\<lambda>k. \<lparr>h_addr = a_base a + a_offset a, h_size = sz,
                    h_version = a_next_version a + k\<rparr>) [0..<n]"
    by auto
  then show ?thesis by simp
qed

theorem version_monotone_witness:
  "\<exists>hs a'. arena_run (realloc_cycles 3 64) (arena_init 4096 1024) = Inr (hs, a') \<and>
     length hs = 3 \<and>
     (\<forall>i<3. h_addr (hs ! i) = a_base (arena_init 4096 1024) + a_offset (arena_init 4096 1024)) \<and>
     (\<forall>i j. i < j \<and> j < 3 \<longrightarrow> h_version (hs ! i) < h_version (hs ! j))"
proof -
  have "a_offset (arena_init 4096 1024) + 64 \<le> a_capacity (arena_init 4096 1024)"
    by (simp add: arena_init_def)
  from realloc_cycles_run [OF this, of 3] obtain hs a' where
    r: "arena_run (realloc_cycles 3 64) (arena_init 4096 1024) = Inr (hs, a')" by blast
  from version_monotone [OF r] r show ?thesis by blast
qed

text \<open>
  The same holds along every run of the arena, whatever its operations: versions
  grow in the order of allocation, so two handles at one address never share one.
\<close>

lemma arena_versions_increase:
  assumes "arena_run ops a = Inr (hs, a')" and "i < j" and "j < length hs"
  shows "h_version (hs ! i) < h_version (hs ! j)"
  using arena_run_versions [OF assms(1)] assms(2,3)
  by (simp add: sorted_wrt_iff_nth_less)

subsection \<open>Invariants\<close>

fun scopes_inv :: "nat \<Rightarrow> nat \<Rightarrow> Scope list \<Rightarrow> bool" where
  "scopes_inv base up [] = True"
| "scopes_inv base up (s # ss) =
     (s_mark s \<le> up \<and>
      (\<forall>h\<in>set (s_bufs s). base + s_mark s \<le> h_addr h \<and> h_addr h + h_size h \<le> base + up) \<and>
      scopes_inv base (s_mark s) ss)"

definition arena_inv :: "Arena \<Rightarrow> bool" where
  "arena_inv a \<longleftrightarrow>
     scopes_inv (a_base a) (a_offset a) (a_scopes a) \<and>
     a_offset a \<le> a_capacity a \<and>
     distinct (map h_version (live_handles a @ a_freed a)) \<and>
     (\<forall>h\<in>set (live_handles a @ a_freed a). h_version h < a_next_version a)"

lemma scopes_inv_mono: "scopes_inv base up ss \<Longrightarrow> up \<le> up' \<Longrightarrow> scopes_inv base up' ss"
  by (cases ss) auto


lemma distinct_map_comm: "distinct (map f (xs @ ys)) \<Longrightarrow> distinct (map f (ys @ xs))"
  by auto

lemma distinct_map_insert:
  "distinct (map f (xs @ ys)) \<Longrightarrow> f h \<notin> f ` set (xs @ ys) \<Longrightarrow> distinct (map f (xs @ [h] @ ys))"
  by auto

lemma arena_inv_init: "arena_inv (arena_init base cap)"
  by (simp add: arena_inv_def arena_init_def live_handles_def)

lemma arena_inv_open: "arena_inv a \<Longrightarrow> arena_inv (arena_open_scope a)"
  by (simp add: arena_inv_def arena_open_scope_def live_handles_def)

lemma arena_inv_allocate:
  assumes "arena_inv a" and "arena_allocate sz a = Inr (h, a1)"
  shows "arena_inv a1"
proof -
  from assms(2) obtain s ss where
    sc: "a_scopes a = s # ss" and cap: "a_offset a + sz \<le> a_capacity a" and
    h: "h = \<lparr>h_addr = a_base a + a_offset a, h_size = sz, h_version = a_next_version a\<rparr>" and
    a1: "a1 = a\<lparr>a_offset := a_offset a + sz, a_next_version := a_next_version a + 1,
                a_scopes := s\<lparr>s_bufs := s_bufs s @ [h]\<rparr> # ss\<rparr>"
    by (auto simp: arena_allocate_def Let_def split: list.splits if_splits)
  from assms(1) sc have
    i1: "s_mark s \<le> a_offset a" and
    i2: "\<forall>x\<in>set (s_bufs s). a_base a + s_mark s \<le> h_addr x \<and> h_addr x + h_size x \<le> a_base a + a_offset a" and
    i3: "scopes_inv (a_base a) (s_mark s) ss" and
    i4: "distinct (map h_version (live_handles a @ a_freed a))" and
    i5: "\<forall>x\<in>set (live_handles a @ a_freed a). h_version x < a_next_version a"
    by (auto simp: arena_inv_def)
  have lv: "live_handles a1 = s_bufs s @ [h] @ concat (map s_bufs ss)"
    and lv0: "live_handles a = s_bufs s @ concat (map s_bufs ss)"
    by (simp_all add: live_handles_def a1 sc)
  have fresh: "h_version h \<notin> h_version ` set (live_handles a @ a_freed a)"
    using i5 h by auto
  have fr: "a_freed a1 = a_freed a" and nv: "a_next_version a1 = Suc (a_next_version a)"
    by (simp_all add: a1)
  have d: "distinct (map h_version (live_handles a1 @ a_freed a1))"
    using distinct_map_insert [of h_version "s_bufs s" "concat (map s_bufs ss) @ a_freed a" h]
      i4 fresh unfolding lv lv0 fr by simp
  have b: "\<forall>x\<in>set (live_handles a1 @ a_freed a1). h_version x < a_next_version a1"
    using i5 h unfolding lv lv0 fr nv by (auto simp: less_Suc_eq)
  have s: "scopes_inv (a_base a1) (a_offset a1) (a_scopes a1)"
    using i1 i2 i3 h by (auto simp: a1)
  have c: "a_offset a1 \<le> a_capacity a1" using cap by (simp add: a1)
  show ?thesis
    unfolding arena_inv_def using d b s c by blast
qed

lemma arena_inv_close:
  assumes "arena_inv a" and "arena_close_scope a = Inr a1"
  shows "arena_inv a1"
proof -
  from assms(2) obtain s ss where
    sc: "a_scopes a = s # ss" and
    a1: "a1 = a\<lparr>a_offset := s_mark s, a_scopes := ss, a_freed := a_freed a @ s_bufs s\<rparr>"
    by (auto simp: arena_close_scope_def split: list.splits)
  from assms(1) sc have
    i1: "s_mark s \<le> a_offset a" and
    i3: "scopes_inv (a_base a) (s_mark s) ss" and
    i0: "a_offset a \<le> a_capacity a" and
    i4: "distinct (map h_version (live_handles a @ a_freed a))" and
    i5: "\<forall>x\<in>set (live_handles a @ a_freed a). h_version x < a_next_version a"
    by (auto simp: arena_inv_def)
  have lv: "live_handles a1 = concat (map s_bufs ss)"
    and lv0: "live_handles a = s_bufs s @ concat (map s_bufs ss)"
    by (simp_all add: live_handles_def a1 sc)
  have fr: "a_freed a1 = a_freed a @ s_bufs s" and nv: "a_next_version a1 = a_next_version a"
    by (simp_all add: a1)
  have d: "distinct (map h_version (live_handles a1 @ a_freed a1))"
    using distinct_map_comm [of h_version "s_bufs s" "concat (map s_bufs ss) @ a_freed a"]
      i4 unfolding lv lv0 fr by simp
  have b: "\<forall>x\<in>set (live_handles a1 @ a_freed a1). h_version x < a_next_version a1"
    using i5 unfolding lv lv0 fr nv by auto
  have s: "scopes_inv (a_base a1) (a_offset a1) (a_scopes a1)"
    using i3 by (simp add: a1)
  have c: "a_offset a1 \<le> a_capacity a1" using i0 i1 by (simp add: a1)
  show ?thesis
    unfolding arena_inv_def using d b s c by blast
qed

lemma note_task_simps:
  "live_handles (note_task tid a) = live_handles a"
  "a_freed (note_task tid a) = a_freed a"
  "a_next_version (note_task tid a) = a_next_version a"
  "a_offset (note_task tid a) = a_offset a"
  "a_capacity (note_task tid a) = a_capacity a"
  "a_base (note_task tid a) = a_base a"
  "map s_bufs (a_scopes (note_task tid a)) = map s_bufs (a_scopes a)"
  "map s_mark (a_scopes (note_task tid a)) = map s_mark (a_scopes a)"
  "length (a_scopes (note_task tid a)) = length (a_scopes a)"
  by (simp_all add: note_task_def live_handles_def split: list.splits)

lemma scopes_inv_note_task:
  "scopes_inv base up (a_scopes (note_task tid a)) = scopes_inv base up (a_scopes a)"
  by (simp add: note_task_def split: list.splits)

lemma arena_inv_note_task: "arena_inv a \<Longrightarrow> arena_inv (note_task tid a)"
  by (simp add: arena_inv_def note_task_simps scopes_inv_note_task)

lemma resolve_param_inv:
  "resolve_param p a = Inr (p', a') \<Longrightarrow> arena_inv a \<Longrightarrow> arena_inv a'"
  by (cases "pd_kind p")
     (auto simp: resolve_param_def split: if_splits sum.splits dest: arena_inv_allocate)

lemma resolve_params_inv:
  "resolve_params ps a = Inr (ps', a') \<Longrightarrow> arena_inv a \<Longrightarrow> arena_inv a'"
proof (induction ps arbitrary: a ps' a')
  case Nil
  then show ?case by simp
next
  case (Cons p ps)
  from Cons.prems(1) obtain p1 a1 ps1 where
    r1: "resolve_param p a = Inr (p1, a1)" and r2: "resolve_params ps a1 = Inr (ps1, a')"
    by (auto split: sum.splits)
  from resolve_param_inv [OF r1 Cons.prems(2)] have "arena_inv a1" .
  from Cons.IH [OF r2 this] show ?case .
qed

definition preds_of :: "(nat \<times> nat) list \<Rightarrow> nat \<Rightarrow> nat list" where
  "preds_of es b = map fst (filter (\<lambda>e. snd e = b) es)"

definition pending_preds :: "Context \<Rightarrow> nat \<Rightarrow> nat list" where
  "pending_preds ctx b = filter (\<lambda>a. \<not> task_completed ctx a) (preds_of (edges ctx) b)"

definition entry_ids :: "RegionMapEntry \<Rightarrow> nat list" where
  "entry_ids e = (case e_writer e of None \<Rightarrow> [] | Some w \<Rightarrow> [w]) @ e_readers e"

definition rm_ids :: "RegionMapEntry list \<Rightarrow> nat list" where
  "rm_ids rm = concat (map entry_ids rm)"

definition edges_inv :: "Context \<Rightarrow> bool" where
  "edges_inv ctx \<longleftrightarrow>
     distinct (edges ctx) \<and>
     (\<forall>e\<in>set (edges ctx). fst e < snd e \<and> snd e < length (tasks ctx)) \<and>
     (\<forall>i\<in>set (rm_ids (region_map ctx)). i < length (tasks ctx))"

definition counters_inv :: "nat list \<Rightarrow> Context \<Rightarrow> bool" where
  "counters_inv R ctx \<longleftrightarrow>
     (\<forall>b<length (tasks ctx).
        t_counter (tasks ctx ! b) =
          int (length (pending_preds ctx b)) + (if b \<in> set R then 1 else 0) \<and>
        (t_state (tasks ctx ! b) = Pending) = (t_counter (tasks ctx ! b) \<noteq> 0))"

definition queues_inv :: "Context \<Rightarrow> bool" where
  "queues_inv ctx \<longleftrightarrow>
     (\<forall>w. distinct (ready_queue ctx w)) \<and>
     (\<forall>w t. t \<in> set (ready_queue ctx w) \<longleftrightarrow>
        t < length (tasks ctx) \<and> t_state (tasks ctx ! t) = Ready \<and>
        t_worker (tasks ctx ! t) = w)"

definition window_inv :: "Context \<Rightarrow> bool" where
  "window_inv ctx \<longleftrightarrow>
     retired ctx \<le> length (tasks ctx) \<and>
     length (tasks ctx) - retired ctx \<le> window_capacity ctx \<and>
     length (edges ctx) \<le> edge_capacity ctx \<and>
     (aborted ctx \<longleftrightarrow> (\<exists>t<length (tasks ctx). t_state (tasks ctx ! t) = Failed))"

definition ctx_inv :: "Context \<Rightarrow> bool" where
  "ctx_inv ctx \<longleftrightarrow>
     edges_inv ctx \<and> counters_inv [] ctx \<and> queues_inv ctx \<and> window_inv ctx \<and>
     arena_inv (arena ctx)"

subsection \<open>Edge insertion\<close>


lemma attach_edges_spec:
  "attach_edges ctx b ps (es, c) = Inr (es', c') \<Longrightarrow>
     \<exists>new. es' = es @ map (\<lambda>a. (a, b)) new \<and> distinct new \<and>
           set new = {a \<in> set ps. a \<noteq> b \<and> (a, b) \<notin> set es} \<and>
           c' = c + int (length (filter (\<lambda>a. \<not> task_completed ctx a) new)) \<and>
           length es' \<le> max (length es) (edge_capacity ctx)"
proof (induction ps arbitrary: es c)
  case Nil
  then show ?case by simp
next
  case (Cons a ps)
  show ?case
  proof (cases "a = b \<or> (a, b) \<in> set es")
    case True
    with Cons.prems have "attach_edges ctx b ps (es, c) = Inr (es', c')"
      by (auto simp: add_edge_def)
    from Cons.IH [OF this] obtain new where
      n: "es' = es @ map (\<lambda>a. (a, b)) new" "distinct new"
         "set new = {a \<in> set ps. a \<noteq> b \<and> (a, b) \<notin> set es}"
         "c' = c + int (length (filter (\<lambda>a. \<not> task_completed ctx a) new))"
         "length es' \<le> max (length es) (edge_capacity ctx)"
      by blast
    have "set new = {x \<in> set (a # ps). x \<noteq> b \<and> (x, b) \<notin> set es}"
      using n(3) True by auto
    with n show ?thesis by blast
  next
    case False
    let ?es1 = "es @ [(a, b)]"
    let ?c1 = "if task_completed ctx a then c else c + 1"
    from False Cons.prems have cap: "length es < edge_capacity ctx"
      and r: "attach_edges ctx b ps (?es1, ?c1) = Inr (es', c')"
      by (auto simp: add_edge_def split: if_splits)
    from Cons.IH [OF r] obtain new where
      n: "es' = ?es1 @ map (\<lambda>a. (a, b)) new" "distinct new"
         "set new = {x \<in> set ps. x \<noteq> b \<and> (x, b) \<notin> set ?es1}"
         "c' = ?c1 + int (length (filter (\<lambda>a. \<not> task_completed ctx a) new))"
         "length es' \<le> max (length ?es1) (edge_capacity ctx)"
      by blast
    have a: "a \<notin> set new" using n(3) by auto
    have 1: "es' = es @ map (\<lambda>a. (a, b)) (a # new)" using n(1) by simp
    have 2: "distinct (a # new)" using n(2) a by simp
    have 3: "set (a # new) = {x \<in> set (a # ps). x \<noteq> b \<and> (x, b) \<notin> set es}"
      using n(3) False by auto
    have 4: "c' = c + int (length (filter (\<lambda>a. \<not> task_completed ctx a) (a # new)))"
      using n(4) by simp
    have 5: "length es' \<le> max (length es) (edge_capacity ctx)"
      using n(5) cap by simp
    from 1 2 3 4 5 show ?thesis by blast
  qed
qed

subsection \<open>Task ids in the region map\<close>

lemma deps_of_entry_ids: "set (deps_of_entry acc r e) \<subseteq> set (entry_ids e)"
  by (auto simp: deps_of_entry_def entry_ids_def split: option.splits if_splits)

lemma update_entry_ids: "set (entry_ids (update_entry tid acc r e)) \<subseteq> insert tid (set (entry_ids e))"
  by (cases acc) (auto simp: update_entry_def entry_ids_def split: option.splits)

lemma new_entry_ids: "set (entry_ids (new_entry tid acc r)) = {tid}"
  by (cases acc) (auto simp: new_entry_def entry_ids_def)

lemma access_region_ids:
  assumes "access_region tid acc r rm = (d, rm')"
  shows "set d \<subseteq> set (rm_ids rm)" and "set (rm_ids rm') \<subseteq> insert tid (set (rm_ids rm))"
proof -
  from assms have d: "d = concat (map (deps_of_entry acc r) rm)"
    and rm': "rm' = (if list_ex (\<lambda>e. aliases (e_region e) r) rm
                    then map (update_entry tid acc r) rm else rm @ [new_entry tid acc r])"
    by (simp_all add: access_region_def)
  show "set d \<subseteq> set (rm_ids rm)"
    using deps_of_entry_ids by (fastforce simp: d rm_ids_def)
  show "set (rm_ids rm') \<subseteq> insert tid (set (rm_ids rm))"
  proof (cases "list_ex (\<lambda>e. aliases (e_region e) r) rm")
    case True
    then have "rm' = map (update_entry tid acc r) rm" by (simp add: rm')
    then show ?thesis
      using update_entry_ids [of tid acc r] by (auto simp: rm_ids_def)
  next
    case False
    then have "rm' = rm @ [new_entry tid acc r]" by (simp add: rm')
    then show ?thesis by (simp add: rm_ids_def new_entry_ids)
  qed
qed

lemma process_param_ids:
  assumes "process_param tid p rm = (d, rm')"
  shows "set d \<subseteq> insert tid (set (rm_ids rm)) \<and> set (rm_ids rm') \<subseteq> insert tid (set (rm_ids rm))"
proof (cases "pd_kind p")
  case INPUT
  with assms have "access_region tid Read (pd_region p) rm = (d, rm')" by simp
  from access_region_ids [OF this] show ?thesis by auto
next
  case OUTPUT
  with assms have "access_region tid Write (pd_region p) rm = (d, rm')" by simp
  from access_region_ids [OF this] show ?thesis by auto
next
  case INOUT
  obtain d1 rm1 where 1: "access_region tid Read (pd_region p) rm = (d1, rm1)" by force
  obtain d2 rm2 where 2: "access_region tid Write (pd_region p) rm1 = (d2, rm2)" by force
  from assms INOUT 1 2 have e: "d = d1 @ d2" "rm' = rm2" by simp_all
  from access_region_ids [OF 1] access_region_ids [OF 2] show ?thesis
    unfolding e by auto
next
  case SCALAR
  with assms show ?thesis by auto
qed

lemma process_params_ids:
  "process_params tid ps rm = (d, rm') \<Longrightarrow>
     set d \<subseteq> insert tid (set (rm_ids rm)) \<and> set (rm_ids rm') \<subseteq> insert tid (set (rm_ids rm))"
proof (induction ps arbitrary: rm d rm')
  case Nil
  then show ?case by auto
next
  case (Cons p ps)
  obtain d1 rm1 where 1: "process_param tid p rm = (d1, rm1)" by force
  obtain d2 rm2 where 2: "process_params tid ps rm1 = (d2, rm2)" by force
  from Cons.prems 1 2 have e: "d = d1 @ d2" "rm' = rm2" by simp_all
  from Cons.IH [OF 2] process_param_ids [OF 1] show ?case unfolding e by auto
qed

subsection \<open>Effects of the single operations\<close>

lemma set_state_simps:
  "tasks (set_state t st ctx) = (tasks ctx)[t := (tasks ctx ! t)\<lparr>t_state := st\<rparr>]"
  "edges (set_state t st ctx) = edges ctx"
  "region_map (set_state t st ctx) = region_map ctx"
  "arena (set_state t st ctx) = arena ctx"
  "ready_queue (set_state t st ctx) = ready_queue ctx"
  "aborted (set_state t st ctx) = aborted ctx"
  "retired (set_state t st ctx) = retired ctx"
  "window_capacity (set_state t st ctx) = window_capacity ctx"
  "edge_capacity (set_state t st ctx) = edge_capacity ctx"
  by (simp_all add: set_state_def)

lemma set_state_nth:
  "b < length (tasks ctx) \<Longrightarrow>
     t_state (tasks (set_state t st ctx) ! b) = (if b = t then st else t_state (tasks ctx ! b)) \<and>
     t_counter (tasks (set_state t st ctx) ! b) = t_counter (tasks ctx ! b) \<and>
     t_worker (tasks (set_state t st ctx) ! b) = t_worker (tasks ctx ! b)"
  by (simp add: set_state_def nth_list_update)

lemma task_completed_set_state:
  "task_completed (set_state t st ctx) a =
     (if a = t then t < length (tasks ctx) \<and> st = Completed else task_completed ctx a)"
  by (auto simp: task_completed_def set_state_def nth_list_update)

lemma pending_preds_set_state:
  "st \<noteq> Completed \<Longrightarrow> \<not> task_completed ctx t \<Longrightarrow>
     pending_preds (set_state t st ctx) b = pending_preds ctx b"
  by (auto simp: pending_preds_def task_completed_set_state set_state_simps intro!: filter_cong)

lemma counters_inv_set_state:
  assumes "counters_inv R ctx" and "t < length (tasks ctx)"
    and "t_state (tasks ctx ! t) \<notin> {Pending, Completed}" and "st \<notin> {Pending, Completed}"
  shows "counters_inv R (set_state t st ctx)"
proof -
  have nc: "\<not> task_completed ctx t" using assms(3) by (simp add: task_completed_def)
  have pp: "pending_preds (set_state t st ctx) b = pending_preds ctx b" for b
    using pending_preds_set_state [OF _ nc] assms(4) by simp
  show ?thesis
    unfolding counters_inv_def
  proof (intro allI impI)
    fix b assume "b < length (tasks (set_state t st ctx))"
    then have b: "b < length (tasks ctx)" by (simp add: set_state_simps)
    from assms(1) b have
      c: "t_counter (tasks ctx ! b) = int (length (pending_preds ctx b)) + (if b \<in> set R then 1 else 0)"
      and s: "(t_state (tasks ctx ! b) = Pending) = (t_counter (tasks ctx ! b) \<noteq> 0)"
      by (simp_all add: counters_inv_def)
    show "t_counter (tasks (set_state t st ctx) ! b) =
            int (length (pending_preds (set_state t st ctx) b)) + (if b \<in> set R then 1 else 0) \<and>
          (t_state (tasks (set_state t st ctx) ! b) = Pending) =
            (t_counter (tasks (set_state t st ctx) ! b) \<noteq> 0)"
      using c s assms(3,4) set_state_nth [OF b, of t st] pp [of b] by auto
  qed
qed

lemma edges_inv_set_state: "edges_inv ctx \<Longrightarrow> edges_inv (set_state t st ctx)"
  by (simp add: edges_inv_def set_state_simps)

lemma window_inv_set_state:
  assumes "window_inv ctx" and "t < length (tasks ctx)"
    and "t_state (tasks ctx ! t) \<noteq> Failed" and "st \<noteq> Failed"
  shows "window_inv (set_state t st ctx)"
proof -
  have "(\<exists>b<length (tasks ctx). t_state (tasks (set_state t st ctx) ! b) = Failed) =
        (\<exists>b<length (tasks ctx). t_state (tasks ctx ! b) = Failed)"
    using assms(3,4) set_state_nth by (metis (full_types))
  with assms(1) show ?thesis by (simp add: window_inv_def set_state_simps)
qed

lemma queues_inv_set_state:
  assumes "queues_inv ctx" and "t < length (tasks ctx)"
    and "t_state (tasks ctx ! t) \<noteq> Ready" and "st \<noteq> Ready"
  shows "queues_inv (set_state t st ctx)"
  unfolding queues_inv_def
proof (intro conjI allI)
  fix w show "distinct (ready_queue (set_state t st ctx) w)"
    using assms(1) by (simp add: set_state_simps queues_inv_def)
next
  fix w b
  from assms(1) have m: "(b \<in> set (ready_queue ctx w)) =
      (b < length (tasks ctx) \<and> t_state (tasks ctx ! b) = Ready \<and> t_worker (tasks ctx ! b) = w)"
    by (simp add: queues_inv_def)
  show "(b \<in> set (ready_queue (set_state t st ctx) w)) =
        (b < length (tasks (set_state t st ctx)) \<and> t_state (tasks (set_state t st ctx) ! b) = Ready \<and>
         t_worker (tasks (set_state t st ctx) ! b) = w)"
  proof (cases "b < length (tasks ctx)")
    case True
    from set_state_nth [OF True, of t st] m assms(3,4) True show ?thesis
      by (auto simp: set_state_simps)
  next
    case False
    with m show ?thesis by (simp add: set_state_simps)
  qed
qed

lemma ctx_inv_start:
  assumes "ctx_inv ctx" and "start_task t ctx = Some ctx'"
  shows "ctx_inv ctx'"
proof -
  from assms(2) have t: "t < length (tasks ctx)" and s: "t_state (tasks ctx ! t) = Dispatched"
    and c: "ctx' = set_state t Running ctx"
    by (auto simp: start_task_def split: if_splits)
  have q: "queues_inv ctx'"
    unfolding c using queues_inv_set_state [of ctx t Running] assms(1) t s by (simp add: ctx_inv_def)
  show ?thesis
    using assms(1) q
      counters_inv_set_state [of "[]" ctx t Running] edges_inv_set_state [of ctx t Running]
      window_inv_set_state [of ctx t Running] t s
    by (simp add: ctx_inv_def c set_state_simps)
qed

lemma ctx_inv_fail:
  assumes "ctx_inv ctx" and "fail_task t ctx = Some ctx'"
  shows "ctx_inv ctx'"
proof -
  from assms(2) have t: "t < length (tasks ctx)" and s: "t_state (tasks ctx ! t) = Running"
    and c: "ctx' = (set_state t Failed ctx)\<lparr>aborted := True\<rparr>"
    by (auto simp: fail_task_def split: if_splits)
  let ?c1 = "set_state t Failed ctx"
  have q: "queues_inv ?c1"
    using queues_inv_set_state [of ctx t Failed] assms(1) t s by (simp add: ctx_inv_def)
  have cn: "counters_inv [] ?c1"
    using counters_inv_set_state [of "[]" ctx t Failed] assms(1) t s by (simp add: ctx_inv_def)
  have f: "t_state (tasks ?c1 ! t) = Failed" using set_state_nth [OF t, of t Failed] by simp
  have w: "window_inv ctx'"
    using assms(1) t f unfolding c ctx_inv_def window_inv_def
    by (auto simp: set_state_simps)
  have e: "edges_inv ctx'" using assms(1) edges_inv_set_state [of ctx t Failed]
    by (simp add: c ctx_inv_def edges_inv_def)
  have cn': "counters_inv [] ctx'" using cn
    by (simp add: c counters_inv_def pending_preds_def task_completed_def)
  have q': "queues_inv ctx'" using q by (simp add: c queues_inv_def)
  show ?thesis using e cn' q' w assms(1) by (simp add: ctx_inv_def c set_state_simps)
qed

lemma ctx_inv_retire:
  assumes "ctx_inv ctx" and "retire ctx = Some ctx'"
  shows "ctx_inv ctx'"
proof -
  from assms(2) have r: "retired ctx < length (tasks ctx)"
    and c: "ctx' = ctx\<lparr>retired := retired ctx + 1\<rparr>"
    by (auto simp: retire_def split: if_splits)
  show ?thesis
    using assms(1) r
    by (auto simp: c ctx_inv_def edges_inv_def counters_inv_def queues_inv_def window_inv_def
        pending_preds_def task_completed_def)
qed

lemma ctx_inv_open:
  assumes "ctx_inv ctx"
  shows "ctx_inv (open_scope ctx)"
  using assms arena_inv_open [of "arena ctx"]
  by (auto simp: open_scope_def ctx_inv_def edges_inv_def counters_inv_def queues_inv_def
      window_inv_def pending_preds_def task_completed_def)

lemma rm_ids_filter: "set (rm_ids (filter P rm)) \<subseteq> set (rm_ids rm)"
  by (auto simp: rm_ids_def)

lemma pop_scope_Inr:
  assumes "pop_scope ctx = Inr ctx'"
  shows "\<exists>s ss ar. a_scopes (arena ctx) = s # ss \<and> \<not> list_ex (unresolved ctx) (s_tasks s) \<and>
           arena_close_scope (arena ctx) = Inr ar \<and>
           ctx' = ctx\<lparr>arena := ar,
                      region_map := filter (\<lambda>e. \<not> list_ex (lies_in (e_region e)) (s_bufs s))
                                      (region_map ctx)\<rparr>"
  using assms by (auto simp: pop_scope_def split: list.splits if_splits sum.splits)

lemma ctx_inv_pop:
  assumes "ctx_inv ctx" and "pop_scope ctx = Inr ctx'"
  shows "ctx_inv ctx'"
proof -
  from pop_scope_Inr [OF assms(2)] obtain s ss ar where
    sc: "a_scopes (arena ctx) = s # ss" and
    ur: "\<not> list_ex (unresolved ctx) (s_tasks s)" and
    cl: "arena_close_scope (arena ctx) = Inr ar" and
    c: "ctx' = ctx\<lparr>arena := ar,
                   region_map := filter (\<lambda>e. \<not> list_ex (lies_in (e_region e)) (s_bufs s))
                                   (region_map ctx)\<rparr>"
    by (elim exE conjE)
  have a: "arena_inv ar" using arena_inv_close [OF _ cl] assms(1) by (simp add: ctx_inv_def)
  have e: "edges_inv ctx'"
    using assms(1) rm_ids_filter unfolding c ctx_inv_def edges_inv_def by fastforce
  show ?thesis
    using assms(1) a e
    by (auto simp: c ctx_inv_def counters_inv_def queues_inv_def
        window_inv_def pending_preds_def task_completed_def)
qed

lemma ctx_inv_close:
  "ctx_inv ctx \<Longrightarrow> close_scope ctx = Inr ctx' \<Longrightarrow> ctx_inv ctx'"
  by (auto simp: close_scope_def split: if_splits dest: ctx_inv_pop)

lemma ctx_inv_dispatch:
  assumes "ctx_inv ctx" and "dispatch w ctx = Some ctx'"
  shows "ctx_inv ctx'"
proof -
  from assms(2) obtain t q where rq: "ready_queue ctx w = t # q"
    and c: "ctx' = set_state t Dispatched (ctx\<lparr>ready_queue := (ready_queue ctx)(w := q)\<rparr>)"
    by (auto simp: dispatch_def split: list.splits)
  let ?c0 = "ctx\<lparr>ready_queue := (ready_queue ctx)(w := q)\<rparr>"
  from assms(1) have qi: "queues_inv ctx" by (simp add: ctx_inv_def)
  from qi have m: "(b \<in> set (ready_queue ctx w')) =
      (b < length (tasks ctx) \<and> t_state (tasks ctx ! b) = Ready \<and> t_worker (tasks ctx ! b) = w')"
    for b w' by (simp add: queues_inv_def)
  from qi have d: "distinct (ready_queue ctx w')" for w' by (simp add: queues_inv_def)
  from m [of t w] rq have t: "t < length (tasks ctx)" and s: "t_state (tasks ctx ! t) = Ready"
    and tw: "t_worker (tasks ctx ! t) = w" by simp_all
  from d [of w] rq have tq: "t \<notin> set q" and dq: "distinct q" by simp_all
  have cn0: "counters_inv [] ?c0" using assms(1)
    by (simp add: ctx_inv_def counters_inv_def pending_preds_def task_completed_def)
  have cn: "counters_inv [] ctx'"
    unfolding c using counters_inv_set_state [OF cn0, of t Dispatched] t s by simp
  have e: "edges_inv ctx'" using assms(1)
    by (simp add: c ctx_inv_def edges_inv_def set_state_simps)
  have w0: "window_inv ?c0" using assms(1) by (simp add: ctx_inv_def window_inv_def)
  have wi: "window_inv ctx'"
    unfolding c using window_inv_set_state [OF w0, of t Dispatched] t s by simp
  have len: "length (tasks ctx') = length (tasks ctx)" by (simp add: c set_state_simps)
  have rq': "ready_queue ctx' w' = (if w' = w then q else ready_queue ctx w')" for w'
    by (simp add: c set_state_simps)
  have q': "queues_inv ctx'"
    unfolding queues_inv_def
  proof (intro conjI allI)
    fix w' show "distinct (ready_queue ctx' w')"
      using d [of w'] dq by (simp add: rq')
  next
    fix w' b
    show "(b \<in> set (ready_queue ctx' w')) =
          (b < length (tasks ctx') \<and> t_state (tasks ctx' ! b) = Ready \<and> t_worker (tasks ctx' ! b) = w')"
    proof (cases "b < length (tasks ctx)")
      case False
      with m [of b w'] m [of b w] rq show ?thesis
        by (auto simp: len rq')
    next
      case True
      have nth: "t_state (tasks ctx' ! b) = (if b = t then Dispatched else t_state (tasks ctx ! b))"
        "t_worker (tasks ctx' ! b) = t_worker (tasks ctx ! b)"
        using set_state_nth [of b ?c0 t Dispatched] True by (simp_all add: c)
      show ?thesis
      proof (cases "b = t")
        case True
        then show ?thesis using tq nth rq' [of w'] m [of t w'] s tw t by (auto simp: len)
      next
        case False
        then show ?thesis using nth rq' [of w'] m [of b w'] m [of b w] rq True by (auto simp: len)
      qed
    qed
  qed
  show ?thesis using e cn q' wi assms(1) by (simp add: ctx_inv_def c set_state_simps)
qed

lemma notify_dependent_frame:
  "arena (notify_dependent b c) = arena c"
  "edges (notify_dependent b c) = edges c"
  "region_map (notify_dependent b c) = region_map c"
  "aborted (notify_dependent b c) = aborted c"
  "retired (notify_dependent b c) = retired c"
  "window_capacity (notify_dependent b c) = window_capacity c"
  "edge_capacity (notify_dependent b c) = edge_capacity c"
  "length (tasks (notify_dependent b c)) = length (tasks c)"
  by (simp_all add: notify_dependent_def push_ready_def Let_def)

lemma fold_notify_frame:
  "arena (fold notify_dependent bs c) = arena c \<and>
   edges (fold notify_dependent bs c) = edges c \<and>
   region_map (fold notify_dependent bs c) = region_map c \<and>
   aborted (fold notify_dependent bs c) = aborted c \<and>
   retired (fold notify_dependent bs c) = retired c \<and>
   window_capacity (fold notify_dependent bs c) = window_capacity c \<and>
   edge_capacity (fold notify_dependent bs c) = edge_capacity c \<and>
   length (tasks (fold notify_dependent bs c)) = length (tasks c)"
  by (induction bs arbitrary: c) (simp_all add: notify_dependent_frame)

lemma submit_task_Inr:
  assumes "submit_task fid w k ps ctx = (Inr tid, ctx')"
  shows "\<exists>ps' ar preds rm es cnt.
           \<not> window_full ctx \<and> tid = length (tasks ctx) \<and>
           resolve_params ps (arena ctx) = Inr (ps', ar) \<and>
           process_params tid ps' (region_map ctx) = (preds, rm) \<and>
           attach_edges ctx tid preds (edges ctx, 0) = Inr (es, cnt) \<and>
           ctx' = ctx\<lparr>tasks := tasks ctx @
                        [\<lparr>t_func = fid, t_worker = w, t_kernel = k, t_params = ps',
                          t_counter = cnt, t_state = (if cnt = 0 then Ready else Pending)\<rparr>],
                      edges := es, region_map := rm, arena := note_task tid ar,
                      ready_queue :=
                        (if cnt = 0 then (ready_queue ctx)(w := ready_queue ctx w @ [tid])
                         else ready_queue ctx)\<rparr>"
  using assms
  by (auto simp: submit_task_def Let_def split: if_splits sum.splits prod.splits)






text \<open>A small session for the witnesses: a window of \<open>n\<close> tasks and a 1 KiB heap.\<close>

definition wit_info :: "nat \<Rightarrow> BeginInfo" where
  "wit_info n = \<lparr>sm_ptr = 0, args = [], arg_count = 7, expected_arg_count = 7,
                 task_window_size = n, dep_list_pool_size = 8, heap_size = 1024,
                 gm_heap_ptr = 4096\<rparr>"

lemmas eval_defs = orch_begin_def wit_info_def arena_init_def arena_open_scope_def
  arena_allocate_def arena_close_scope_def submit_task_def window_full_def resolve_param_def
  access_region_def deps_of_entry_def update_entry_def new_entry_def check_overlap_def
  aliases_def ranges_intersect_def add_edge_def note_task_def step_def open_scope_def
  close_scope_def pop_scope_def unresolved_def lies_in_def dispatch_def set_state_def
  start_task_def complete_task_def outbound_def notify_dependent_def push_ready_def
  task_completed_def Let_def



text \<open>
  C4. In every state in which the task window is full, \<open>submit_task\<close> fails with
  \<open>CapacityExceeded\<close> and returns the context as it was: the states of all
  previously submitted tasks are unchanged.
\<close>

theorem submit_task_window_full:
  assumes "window_full ctx"
  shows "submit_task fid w k ps ctx = (Inl CapacityExceeded, ctx) \<and>
         map t_state (tasks (snd (submit_task fid w k ps ctx))) = map t_state (tasks ctx)"
  using assms by (simp add: submit_task_def)


lemma wit_full_run:
  "\<exists>c0 c1. orch_begin (wit_info 1) = Inr c0 \<and>
     submit_task 0 VECTOR ''kernel_add'' [] c0 = (Inr 0, c1) \<and> window_full c1"
  by (simp add: eval_defs)

theorem submit_task_window_full_witness:
  "\<exists>c0 c1. orch_begin (wit_info 1) = Inr c0 \<and>
     submit_task 0 VECTOR ''kernel_add'' [] c0 = (Inr 0, c1) \<and> window_full c1 \<and>
     submit_task 1 CUBE ''kernel_mul'' [] c1 = (Inl CapacityExceeded, c1) \<and>
     map t_state (tasks (snd (submit_task 1 CUBE ''kernel_mul'' [] c1))) = map t_state (tasks c1)"
proof -
  from wit_full_run obtain c0 c1 where
    w: "orch_begin (wit_info 1) = Inr c0"
       "submit_task 0 VECTOR ''kernel_add'' [] c0 = (Inr 0, c1)" "window_full c1"
    by (elim exE conjE)
  from submit_task_window_full [OF w(3), of 1 CUBE "''kernel_mul''" "[]"] w
  show ?thesis by blast
qed

subsection \<open>Completion preserves the invariants\<close>

lemma preds_of_iff: "t \<in> set (preds_of es b) \<longleftrightarrow> (t, b) \<in> set es"
  by (force simp: preds_of_def)

lemma outbound_iff: "b \<in> set (outbound t es) \<longleftrightarrow> (t, b) \<in> set es"
  by (force simp: outbound_def)

lemma distinct_preds_of: "distinct es \<Longrightarrow> distinct (preds_of es b)"
  unfolding preds_of_def
  by (rule distinct_map [THEN iffD2]) (auto simp: inj_on_def intro: prod_eqI)

lemma distinct_outbound: "distinct es \<Longrightarrow> distinct (outbound t es)"
  unfolding outbound_def
  by (rule distinct_map [THEN iffD2]) (auto simp: inj_on_def intro: prod_eqI)

lemma filter_remove_one:
  "distinct ps \<Longrightarrow> t \<in> set ps \<Longrightarrow> P t \<Longrightarrow>
     length (filter (\<lambda>a. P a \<and> a \<noteq> t) ps) + 1 = length (filter P ps)"
proof (induction ps)
  case Nil
  then show ?case by simp
next
  case (Cons a ps)
  show ?case
  proof (cases "a = t")
    case True
    with Cons.prems have "t \<notin> set ps" by simp
    then have "filter (\<lambda>a. P a \<and> a \<noteq> t) ps = filter P ps"
      by (intro filter_cong) auto
    with True Cons.prems show ?thesis by simp
  next
    case False
    with Cons show ?thesis by auto
  qed
qed

lemma counters_inv_mark_completed:
  assumes c: "counters_inv [] ctx" and e: "edges_inv ctx"
    and t: "t < length (tasks ctx)" and s: "t_state (tasks ctx ! t) = Running"
  shows "counters_inv (outbound t (edges ctx)) (set_state t Completed ctx)"
  unfolding counters_inv_def
proof (intro allI impI)
  let ?c1 = "set_state t Completed ctx"
  fix b assume "b < length (tasks ?c1)"
  then have b: "b < length (tasks ctx)" by (simp add: set_state_simps)
  from c b have
    cb: "t_counter (tasks ctx ! b) = int (length (pending_preds ctx b))"
    and sb: "(t_state (tasks ctx ! b) = Pending) = (t_counter (tasks ctx ! b) \<noteq> 0)"
    by (simp_all add: counters_inv_def)
  from e have d: "distinct (preds_of (edges ctx) b)"
    by (simp add: edges_inv_def distinct_preds_of)
  have nc: "\<not> task_completed ctx t" using s by (simp add: task_completed_def)
  have pp: "pending_preds ?c1 b =
      filter (\<lambda>a. \<not> task_completed ctx a \<and> a \<noteq> t) (preds_of (edges ctx) b)"
    unfolding pending_preds_def set_state_simps
    by (rule filter_cong) (auto simp: task_completed_set_state t)
  have ppc: "pending_preds ctx b = filter (\<lambda>a. \<not> task_completed ctx a) (preds_of (edges ctx) b)"
    by (simp add: pending_preds_def)
  have len: "int (length (pending_preds ?c1 b)) + (if b \<in> set (outbound t (edges ctx)) then 1 else 0)
      = int (length (pending_preds ctx b))"
  proof (cases "(t, b) \<in> set (edges ctx)")
    case True
    then have "t \<in> set (preds_of (edges ctx) b)" by (simp add: preds_of_iff)
    from filter_remove_one [OF d this, of "\<lambda>a. \<not> task_completed ctx a"] nc
    have "length (pending_preds ?c1 b) + 1 = length (pending_preds ctx b)"
      unfolding pp ppc by simp
    with True show ?thesis by (simp add: outbound_iff)
  next
    case False
    then have "t \<notin> set (preds_of (edges ctx) b)" by (simp add: preds_of_iff)
    then have "filter (\<lambda>a. \<not> task_completed ctx a \<and> a \<noteq> t) (preds_of (edges ctx) b) =
        filter (\<lambda>a. \<not> task_completed ctx a) (preds_of (edges ctx) b)"
      by (intro filter_cong) auto
    then have "pending_preds ?c1 b = pending_preds ctx b" unfolding pp ppc .
    with False show ?thesis by (simp add: outbound_iff)
  qed
  have st: "(t_state (tasks ?c1 ! b) = Pending) = (t_counter (tasks ?c1 ! b) \<noteq> 0)"
    using set_state_nth [OF b, of t Completed] sb s by auto
  show "t_counter (tasks ?c1 ! b) =
          int (length (pending_preds ?c1 b)) +
          (if b \<in> set (outbound t (edges ctx)) then 1 else 0) \<and>
        (t_state (tasks ?c1 ! b) = Pending) = (t_counter (tasks ?c1 ! b) \<noteq> 0)"
    using len cb st set_state_nth [OF b, of t Completed] by simp
qed

lemma notify_dependent_nth:
  assumes "b < length (tasks c)" and "b' < length (tasks c)"
  shows "t_worker (tasks (notify_dependent b c) ! b') = t_worker (tasks c ! b')"
    and "t_counter (tasks (notify_dependent b c) ! b') =
           (if b' = b then t_counter (tasks c ! b) - 1 else t_counter (tasks c ! b'))"
    and "t_state (tasks (notify_dependent b c) ! b') =
           (if b' = b \<and> t_counter (tasks c ! b) = 1 then Ready else t_state (tasks c ! b'))"
  using assms
  by (auto simp: notify_dependent_def push_ready_def Let_def nth_list_update)

lemma notify_dependent_queue:
  assumes "b < length (tasks c)"
  shows "ready_queue (notify_dependent b c) w =
           (if t_counter (tasks c ! b) = 1 \<and> t_worker (tasks c ! b) = w
            then ready_queue c w @ [b] else ready_queue c w)"
  using assms
  by (auto simp: notify_dependent_def push_ready_def Let_def)

lemma task_completed_notify:
  assumes "b < length (tasks c)" and "t_state (tasks c ! b) \<noteq> Completed"
  shows "task_completed (notify_dependent b c) a = task_completed c a"
proof (cases "a < length (tasks c)")
  case True
  from notify_dependent_nth(3) [OF assms(1) True] assms(2) True show ?thesis
    by (cases "a = b") (auto simp: task_completed_def notify_dependent_frame)
next
  case False
  then show ?thesis by (simp add: task_completed_def notify_dependent_frame)
qed

definition graph_inv :: "nat list \<Rightarrow> Context \<Rightarrow> bool" where
  "graph_inv R c \<longleftrightarrow> edges_inv c \<and> counters_inv R c \<and> queues_inv c \<and> window_inv c"

lemma ctx_inv_graph_inv: "ctx_inv c \<longleftrightarrow> graph_inv [] c \<and> arena_inv (arena c)"
  by (auto simp: ctx_inv_def graph_inv_def)

lemma notify_dependent_inv:
  assumes g: "graph_inv (b # R) c" and bR: "b \<notin> set R" and b: "b < length (tasks c)"
  shows "graph_inv R (notify_dependent b c)"
proof -
  let ?c' = "notify_dependent b c"
  from g have e: "edges_inv c" and cn: "counters_inv (b # R) c" and q: "queues_inv c"
    and w: "window_inv c" by (simp_all add: graph_inv_def)
  from cn b have cb: "t_counter (tasks c ! b) = int (length (pending_preds c b)) + 1"
    and sb: "(t_state (tasks c ! b) = Pending) = (t_counter (tasks c ! b) \<noteq> 0)"
    by (simp_all add: counters_inv_def)
  from cb sb have pend: "t_state (tasks c ! b) = Pending" by simp
  have len: "length (tasks ?c') = length (tasks c)" by (simp add: notify_dependent_frame)
  have tc: "task_completed ?c' a = task_completed c a" for a
    using task_completed_notify [OF b, of a] pend by simp
  have pp: "pending_preds ?c' x = pending_preds c x" for x
    by (simp add: pending_preds_def tc notify_dependent_frame)
  have e': "edges_inv ?c'" using e by (simp add: edges_inv_def notify_dependent_frame)
  have cn': "counters_inv R ?c'"
    unfolding counters_inv_def
  proof (intro allI impI)
    fix x assume "x < length (tasks ?c')"
    then have x: "x < length (tasks c)" by (simp add: len)
    from cn x have
      cx: "t_counter (tasks c ! x) = int (length (pending_preds c x)) + (if x \<in> set (b # R) then 1 else 0)"
      and sx: "(t_state (tasks c ! x) = Pending) = (t_counter (tasks c ! x) \<noteq> 0)"
      by (simp_all add: counters_inv_def)
    show "t_counter (tasks ?c' ! x) = int (length (pending_preds ?c' x)) + (if x \<in> set R then 1 else 0) \<and>
          (t_state (tasks ?c' ! x) = Pending) = (t_counter (tasks ?c' ! x) \<noteq> 0)"
    proof (cases "x = b")
      case True
      with notify_dependent_nth(2,3) [OF b b] cb pend bR show ?thesis
        by (auto simp: pp)
    next
      case False
      with notify_dependent_nth(2,3) [OF b x] cx sx show ?thesis
        by (auto simp: pp)
    qed
  qed
  from q have m: "(x \<in> set (ready_queue c v)) =
      (x < length (tasks c) \<and> t_state (tasks c ! x) = Ready \<and> t_worker (tasks c ! x) = v)"
    for x v by (simp add: queues_inv_def)
  from q have d: "distinct (ready_queue c v)" for v by (simp add: queues_inv_def)
  have bq: "b \<notin> set (ready_queue c v)" for v using m [of b v] pend by simp
  have q': "queues_inv ?c'"
    unfolding queues_inv_def
  proof (intro conjI allI)
    fix v show "distinct (ready_queue ?c' v)"
      using d [of v] bq [of v] by (simp add: notify_dependent_queue [OF b])
  next
    fix v x
    show "(x \<in> set (ready_queue ?c' v)) =
          (x < length (tasks ?c') \<and> t_state (tasks ?c' ! x) = Ready \<and> t_worker (tasks ?c' ! x) = v)"
    proof (cases "x < length (tasks c)")
      case False
      with m [of x v] b show ?thesis
        by (auto simp: len notify_dependent_queue [OF b])
    next
      case True
      show ?thesis
      proof (cases "x = b")
        case xb: True
        with notify_dependent_nth(1,3) [OF b b] bq [of v] pend b show ?thesis
          by (auto simp: len notify_dependent_queue [OF b])
      next
        case xb: False
        with notify_dependent_nth(1,3) [OF b True] m [of x v] True show ?thesis
          by (auto simp: len notify_dependent_queue [OF b])
      qed
    qed
  qed
  have f: "(\<exists>x<length (tasks c). t_state (tasks ?c' ! x) = Failed) =
           (\<exists>x<length (tasks c). t_state (tasks c ! x) = Failed)"
  proof -
    have "(t_state (tasks ?c' ! x) = Failed) = (t_state (tasks c ! x) = Failed)"
      if "x < length (tasks c)" for x
      using notify_dependent_nth(3) [OF b that] pend by (cases "x = b") auto
    then show ?thesis by blast
  qed
  have w': "window_inv ?c'"
    using w f by (simp add: window_inv_def notify_dependent_frame)
  from e' cn' q' w' show ?thesis by (simp add: graph_inv_def)
qed

lemma fold_notify_inv:
  "graph_inv R c \<Longrightarrow> distinct R \<Longrightarrow> \<forall>b\<in>set R. b < length (tasks c) \<Longrightarrow>
     graph_inv [] (fold notify_dependent R c)"
proof (induction R arbitrary: c)
  case Nil
  then show ?case by simp
next
  case (Cons b R)
  from Cons.prems have g: "graph_inv R (notify_dependent b c)"
    by (intro notify_dependent_inv) simp_all
  from Cons.prems have "\<forall>x\<in>set R. x < length (tasks (notify_dependent b c))"
    by (simp add: notify_dependent_frame)
  with Cons.IH [OF g] Cons.prems(2) show ?case by simp
qed

lemma ctx_inv_complete:
  assumes "ctx_inv ctx" and "complete_task t ctx = Some ctx'"
  shows "ctx_inv ctx'"
proof -
  from assms(2) have t: "t < length (tasks ctx)" and s: "t_state (tasks ctx ! t) = Running"
    and c: "ctx' = fold notify_dependent (outbound t (edges ctx)) (set_state t Completed ctx)"
    by (auto simp: complete_task_def split: if_splits)
  let ?c1 = "set_state t Completed ctx"
  from assms(1) have e: "edges_inv ctx" and cn: "counters_inv [] ctx" and q: "queues_inv ctx"
    and w: "window_inv ctx" and a: "arena_inv (arena ctx)" by (simp_all add: ctx_inv_def)
  have g1: "graph_inv (outbound t (edges ctx)) ?c1"
    using counters_inv_mark_completed [OF cn e t s] edges_inv_set_state [OF e, of t Completed]
      queues_inv_set_state [OF q t, of Completed] window_inv_set_state [OF w t, of Completed] s
    by (simp add: graph_inv_def)
  from e have d: "distinct (outbound t (edges ctx))"
    by (simp add: edges_inv_def distinct_outbound)
  from e have "snd x < length (tasks ctx)" if "x \<in> set (edges ctx)" for x
    using that by (simp add: edges_inv_def)
  from this [of "(t, b)" for b]
  have bd: "\<forall>b\<in>set (outbound t (edges ctx)). b < length (tasks ?c1)"
    by (simp add: outbound_iff set_state_simps)
  from fold_notify_inv [OF g1 d bd] have "graph_inv [] ctx'" by (simp add: c)
  moreover have "arena ctx' = arena ctx" by (simp add: c fold_notify_frame set_state_simps)
  ultimately show ?thesis using a by (simp add: ctx_inv_graph_inv)
qed

subsection \<open>Submission preserves the invariants\<close>

lemma ctx_inv_submit:
  assumes inv: "ctx_inv ctx" and sub: "submit_task fid w k ps ctx = (Inr tid, ctx')"
  shows "ctx_inv ctx'"
proof -
  from submit_task_Inr [OF sub] obtain ps' ar preds rm es cnt where
    nf: "\<not> window_full ctx" and tid: "tid = length (tasks ctx)" and
    rp: "resolve_params ps (arena ctx) = Inr (ps', ar)" and
    pp: "process_params tid ps' (region_map ctx) = (preds, rm)" and
    ae: "attach_edges ctx tid preds (edges ctx, 0) = Inr (es, cnt)" and
    c: "ctx' = ctx\<lparr>tasks := tasks ctx @
                        [\<lparr>t_func = fid, t_worker = w, t_kernel = k, t_params = ps',
                          t_counter = cnt, t_state = (if cnt = 0 then Ready else Pending)\<rparr>],
                      edges := es, region_map := rm, arena := note_task tid ar,
                      ready_queue :=
                        (if cnt = 0 then (ready_queue ctx)(w := ready_queue ctx w @ [tid])
                         else ready_queue ctx)\<rparr>"
    by (elim exE conjE)
  let ?t = "\<lparr>t_func = fid, t_worker = w, t_kernel = k, t_params = ps',
              t_counter = cnt, t_state = (if cnt = 0 then Ready else Pending)\<rparr>"
  from inv have e: "edges_inv ctx" and cn: "counters_inv [] ctx" and q: "queues_inv ctx"
    and wi: "window_inv ctx" and a: "arena_inv (arena ctx)" by (simp_all add: ctx_inv_def)
  from e have ed: "distinct (edges ctx)"
    and eb: "\<And>x. x \<in> set (edges ctx) \<Longrightarrow> fst x < snd x \<and> snd x < tid"
    and ib: "\<And>i. i \<in> set (rm_ids (region_map ctx)) \<Longrightarrow> i < tid"
    by (simp_all add: edges_inv_def tid)
  from attach_edges_spec [OF ae] obtain new where
    es: "es = edges ctx @ map (\<lambda>a. (a, tid)) new" and dn: "distinct new" and
    sn: "set new = {a \<in> set preds. a \<noteq> tid \<and> (a, tid) \<notin> set (edges ctx)}" and
    cnt: "cnt = int (length (filter (\<lambda>a. \<not> task_completed ctx a) new))" and
    le: "length es \<le> max (length (edges ctx)) (edge_capacity ctx)"
    by auto
  from process_params_ids [OF pp] have
    pi: "set preds \<subseteq> insert tid (set (rm_ids (region_map ctx)))" and
    ri: "set (rm_ids rm) \<subseteq> insert tid (set (rm_ids (region_map ctx)))"
    by simp_all
  have nb: "a < tid" if "a \<in> set new" for a
    using that sn pi ib by auto
  have lt: "length (tasks ctx) = tid" by (simp add: tid)
  have len: "length (tasks ctx') = Suc tid" by (simp add: c tid)
  have nth_old: "tasks ctx' ! b = tasks ctx ! b" if "b < tid" for b
    using that by (simp add: c tid nth_append)
  have nth_new: "tasks ctx' ! tid = ?t" by (simp add: c tid)
  have tc: "task_completed ctx' x = task_completed ctx x" for x
  proof (cases "x < tid")
    case True
    then show ?thesis by (simp add: task_completed_def len nth_old lt)
  next
    case False
    then show ?thesis
      by (cases "x = tid") (auto simp: task_completed_def len nth_new lt)
  qed
  have notin: "(x, tid) \<notin> set (edges ctx)" for x using eb [of "(x, tid)"] by auto
  \<comment> \<open>edges\<close>
  have e1: "distinct es"
    using ed dn notin unfolding es by (auto simp: distinct_map inj_on_def)
  have e2: "fst x < snd x \<and> snd x < length (tasks ctx')" if "x \<in> set es" for x
    using that eb [of x] nb unfolding es len by auto
  have e3: "i < length (tasks ctx')" if "i \<in> set (rm_ids rm)" for i
    using that ri ib [of i] unfolding len by auto
  have e': "edges_inv ctx'"
    unfolding edges_inv_def using e1 e2 e3 by (simp add: c)
  \<comment> \<open>counters\<close>
  have po_old: "preds_of es b = preds_of (edges ctx) b" if "b \<noteq> tid" for b
    using that by (simp add: preds_of_def es filter_map o_def)
  have po_new: "preds_of es tid = new"
  proof -
    have "filter (\<lambda>x. snd x = tid) (edges ctx) = []"
      using eb by (auto simp: filter_empty_conv)
    then show ?thesis by (simp add: preds_of_def es filter_map o_def)
  qed
  have edg: "edges ctx' = es" by (simp add: c)
  have cn': "counters_inv [] ctx'"
    unfolding counters_inv_def
  proof (intro allI impI)
    fix b assume "b < length (tasks ctx')"
    then have "b < tid \<or> b = tid" unfolding len by auto
    then show "t_counter (tasks ctx' ! b) =
            int (length (pending_preds ctx' b)) + (if b \<in> set [] then 1 else 0) \<and>
          (t_state (tasks ctx' ! b) = Pending) = (t_counter (tasks ctx' ! b) \<noteq> 0)"
    proof
      assume b: "b < tid"
      then have "pending_preds ctx' b = pending_preds ctx b"
        by (simp add: pending_preds_def edg po_old tc)
      with cn b show ?thesis by (simp add: counters_inv_def nth_old lt)
    next
      assume b: "b = tid"
      have "pending_preds ctx' tid = filter (\<lambda>a. \<not> task_completed ctx a) new"
        by (simp add: pending_preds_def edg po_new tc)
      with cnt show ?thesis by (simp add: b nth_new)
    qed
  qed
  \<comment> \<open>queues\<close>
  from q have m: "(x \<in> set (ready_queue ctx v)) =
      (x < tid \<and> t_state (tasks ctx ! x) = Ready \<and> t_worker (tasks ctx ! x) = v)"
    for x v by (simp add: queues_inv_def lt)
  from q have d: "distinct (ready_queue ctx v)" for v by (simp add: queues_inv_def)
  have rq: "ready_queue ctx' v =
      (if cnt = 0 \<and> v = w then ready_queue ctx v @ [tid] else ready_queue ctx v)" for v
    by (simp add: c)
  have tq: "tid \<notin> set (ready_queue ctx v)" for v using m [of tid v] by simp
  have q': "queues_inv ctx'"
    unfolding queues_inv_def
  proof (intro conjI allI)
    fix v show "distinct (ready_queue ctx' v)" using d [of v] tq [of v] by (auto simp: rq)
  next
    fix v x
    consider "x < tid" | "x = tid" | "tid < x" by linarith
    then show "(x \<in> set (ready_queue ctx' v)) =
          (x < length (tasks ctx') \<and> t_state (tasks ctx' ! x) = Ready \<and> t_worker (tasks ctx' ! x) = v)"
    proof cases
      case 1
      with m [of x v] show ?thesis by (auto simp: rq len nth_old)
    next
      case 2
      with tq [of v] show ?thesis by (auto simp: rq len nth_new)
    next
      case 3
      with m [of x v] show ?thesis by (auto simp: rq len)
    qed
  qed
  \<comment> \<open>window\<close>
  have f: "(\<exists>x<Suc tid. t_state (tasks ctx' ! x) = Failed) =
           (\<exists>x<tid. t_state (tasks ctx ! x) = Failed)"
  proof -
    have "t_state (tasks ctx' ! tid) \<noteq> Failed" by (simp add: nth_new)
    then show ?thesis using nth_old by (metis less_Suc_eq)
  qed
  have w': "window_inv ctx'"
    using wi nf le f unfolding window_inv_def window_full_def len
    by (auto simp: c lt)
  \<comment> \<open>arena\<close>
  have a': "arena_inv (arena ctx')"
    using resolve_params_inv [OF rp a] by (simp add: c arena_inv_note_task)
  from e' cn' q' w' a' show ?thesis by (simp add: ctx_inv_def)
qed

lemma ctx_inv_begin: "orch_begin info = Inr c0 \<Longrightarrow> ctx_inv c0"
  using arena_inv_open [OF arena_inv_init]
  by (auto simp: orch_begin_def ctx_inv_def edges_inv_def counters_inv_def queues_inv_def
      window_inv_def rm_ids_def split: if_splits)

lemma ctx_inv_step:
  assumes "ctx_inv ctx" and "step a ctx = Some ctx'"
  shows "ctx_inv ctx'"
proof -
  from assms(2) have d: "do_action a ctx = Some ctx'"
    by (simp add: step_def split: if_splits)
  show ?thesis
  proof (cases a)
    case (Submit fid w k ps)
    with d obtain tid where "submit_task fid w k ps ctx = (Inr tid, ctx')"
      by (auto split: prod.splits sum.splits)
    from ctx_inv_submit [OF assms(1) this] show ?thesis .
  next
    case OpenScope
    with d assms(1) show ?thesis by (auto simp: ctx_inv_open)
  next
    case CloseScope
    with d have "close_scope ctx = Inr ctx'" by (cases "close_scope ctx") simp_all
    from ctx_inv_close [OF assms(1) this] show ?thesis .
  next
    case (Dispatch w)
    with d ctx_inv_dispatch [OF assms(1)] show ?thesis by simp
  next
    case (Start t)
    with d ctx_inv_start [OF assms(1)] show ?thesis by simp
  next
    case (Complete t)
    with d ctx_inv_complete [OF assms(1)] show ?thesis by simp
  next
    case (Fail t)
    with d ctx_inv_fail [OF assms(1)] show ?thesis by simp
  next
    case Retire
    with d ctx_inv_retire [OF assms(1)] show ?thesis by simp
  qed
qed

lemma ctx_inv_run:
  "run acts ctx = Some ctx' \<Longrightarrow> ctx_inv ctx \<Longrightarrow> ctx_inv ctx'"
proof (induction acts arbitrary: ctx)
  case Nil
  then show ?case by simp
next
  case (Cons a acts)
  from Cons.prems(1) obtain c1 where s: "step a ctx = Some c1" and r: "run acts c1 = Some ctx'"
    by (auto split: option.splits)
  from Cons.IH [OF r ctx_inv_step [OF Cons.prems(2) s]] show ?case .
qed

text \<open>
  The window never holds more tasks than its capacity, and the edge pool never more
  edges than its capacity.
\<close>

lemma window_bounded:
  assumes "orch_begin info = Inr c0" and "run acts c0 = Some ctx"
  shows "length (tasks ctx) - retired ctx \<le> window_capacity ctx \<and>
         length (edges ctx) \<le> edge_capacity ctx"
  using ctx_inv_run [OF assms(2) ctx_inv_begin [OF assms(1)]]
  by (simp add: ctx_inv_def window_inv_def)

subsection \<open>The per-task state machine\<close>






lemma edges_step:
  assumes "step a ctx = Some ctx'" and "x \<in> set (edges ctx)"
  shows "x \<in> set (edges ctx')"
proof -
  from assms(1) have d: "do_action a ctx = Some ctx'"
    by (simp add: step_def split: if_splits)
  show ?thesis
  proof (cases a)
    case (Submit fid w k ps)
    with d obtain tid where "submit_task fid w k ps ctx = (Inr tid, ctx')"
      by (auto split: prod.splits sum.splits)
    from submit_task_Inr [OF this] obtain preds es cnt where
      ae: "attach_edges ctx tid preds (edges ctx, 0) = Inr (es, cnt)" and es: "edges ctx' = es"
      by auto
    from attach_edges_spec [OF ae] obtain new where "es = edges ctx @ map (\<lambda>a. (a, tid)) new"
      by blast
    with es assms(2) show ?thesis by simp
  next
    case OpenScope
    with d assms(2) show ?thesis by (auto simp: open_scope_def)
  next
    case CloseScope
    with d have "close_scope ctx = Inr ctx'" by (cases "close_scope ctx") simp_all
    then have "pop_scope ctx = Inr ctx'" by (simp add: close_scope_def split: if_splits)
    from pop_scope_Inr [OF this] have "edges ctx' = edges ctx" by auto
    with assms(2) show ?thesis by simp
  next
    case (Dispatch w)
    with d have "edges ctx' = edges ctx"
      by (auto simp: dispatch_def set_state_simps split: list.splits)
    with assms(2) show ?thesis by simp
  next
    case (Start t)
    with d have "edges ctx' = edges ctx"
      by (auto simp: start_task_def set_state_simps split: if_splits)
    with assms(2) show ?thesis by simp
  next
    case (Complete t)
    with d have "edges ctx' = edges ctx"
      by (auto simp: complete_task_def set_state_simps fold_notify_frame split: if_splits)
    with assms(2) show ?thesis by simp
  next
    case (Fail t)
    with d have "edges ctx' = edges ctx"
      by (auto simp: fail_task_def set_state_simps split: if_splits)
    with assms(2) show ?thesis by simp
  next
    case Retire
    with d have "edges ctx' = edges ctx"
      by (auto simp: retire_def split: if_splits)
    with assms(2) show ?thesis by simp
  qed
qed

subsection \<open>Idempotent edge insertion and the countdown\<close>







subsection \<open>The ordering guarantee\<close>


subsection \<open>The example orchestration\<close>

text \<open>
  The graph that \<^verbatim>\<open>aicpu_orchestration_entry\<close> builds between the opening of the
  orchestration and the end of the inner scope: five submissions, each with the
  first three parameters of its array, in the order of the source.
  Modelled from the spec: the tensor and parameter makers of \<^verbatim>\<open>pto_runtime2.h\<close>;
  \<^verbatim>\<open>make_tensor\<close> gives a buffer with a null address that the submission writing
  it allocates, and \<open>tensor_of\<close> reads the allocated handle back.
\<close>

definition make_tensor_external :: "nat \<Rightarrow> nat \<Rightarrow> BufferHandle" where
  "make_tensor_external ptr sz = \<lparr>h_addr = ptr, h_size = sz, h_version = 0\<rparr>"

definition make_tensor :: "nat \<Rightarrow> BufferHandle" where
  "make_tensor sz = \<lparr>h_addr = 0, h_size = sz, h_version = 0\<rparr>"

definition input_param :: "BufferHandle \<Rightarrow> ParamDescriptor" where
  "input_param t = \<lparr>pd_kind = INPUT, pd_region = t, pd_scalar = 0\<rparr>"

definition output_param :: "BufferHandle \<Rightarrow> ParamDescriptor" where
  "output_param t = \<lparr>pd_kind = OUTPUT, pd_region = t, pd_scalar = 0\<rparr>"

definition scalar_param :: "64 word \<Rightarrow> ParamDescriptor" where
  "scalar_param v =
     \<lparr>pd_kind = SCALAR, pd_region = \<lparr>h_addr = 0, h_size = 0, h_version = 0\<rparr>, pd_scalar = v\<rparr>"

definition tensor_of :: "Context \<Rightarrow> nat \<Rightarrow> nat \<Rightarrow> BufferHandle" where
  "tensor_of ctx tid i = pd_region (t_params (tasks ctx ! tid) ! i)"

definition submit ::
  "int \<Rightarrow> PTOWorkerType \<Rightarrow> string \<Rightarrow> ParamDescriptor list \<Rightarrow> Context \<Rightarrow> error + Context" where
  "submit fid w k ps ctx =
     (case submit_task fid w k ps ctx of
        (Inl e, _) \<Rightarrow> Inl e
      | (Inr tid, ctx') \<Rightarrow> Inr ctx')"

definition bind_err :: "error + 'a \<Rightarrow> ('a \<Rightarrow> error + 'b) \<Rightarrow> error + 'b" where
  "bind_err r f = (case r of Inl e \<Rightarrow> Inl e | Inr x \<Rightarrow> f x)"

definition example_graph ::
  "nat \<Rightarrow> nat \<Rightarrow> nat \<Rightarrow> nat \<Rightarrow> nat \<Rightarrow> nat \<Rightarrow> nat \<Rightarrow> Context \<Rightarrow> error + Context" where
  "example_graph a_ptr b_ptr f_ptr size_a size_b size_f BYTES rt =
     (let ext_a = make_tensor_external a_ptr size_a;
          ext_b = make_tensor_external b_ptr size_b;
          ext_f = make_tensor_external f_ptr size_f;
          c = make_tensor BYTES
      in bind_err (submit 0 VECTOR ''kernel_add''
                     [input_param ext_a, input_param ext_b, output_param c] rt) (\<lambda>rt.
         let c = tensor_of rt 0 2;
             rt = open_scope rt;
             d = make_tensor BYTES;
             e = make_tensor BYTES;
             g = make_tensor BYTES
         in bind_err (submit 1 VECTOR ''kernel_add_scalar''
                        [input_param c, scalar_param (float_to_u64 0x3F800000), output_param d] rt) (\<lambda>rt.
            let d = tensor_of rt 1 2
            in bind_err (submit 1 VECTOR ''kernel_add_scalar''
                           [input_param c, scalar_param (float_to_u64 0x40000000), output_param e] rt) (\<lambda>rt.
               let e = tensor_of rt 2 2
               in bind_err (submit 2 VECTOR ''kernel_mul''
                              [input_param d, input_param e, output_param g] rt) (\<lambda>rt.
                  let g = tensor_of rt 3 2
                  in submit 0 VECTOR ''kernel_add''
                       [input_param g, input_param c, output_param ext_f] rt)))))"



text \<open>
  \<^verbatim>\<open>aicpu_orchestration_entry\<close>: the begin-info record with the capacities the
  source defines, the seven arguments read from \<^verbatim>\<open>args\<close>, and the graph. The
  argument \<open>heap\<close> is the address of the static buffer \<^verbatim>\<open>s_gm_heap_stub\<close>.
\<close>

definition aicpu_orchestration_entry ::
  "nat \<Rightarrow> 64 word list \<Rightarrow> int \<Rightarrow> nat \<Rightarrow> error + Context" where
  "aicpu_orchestration_entry sm args_v argc heap =
     bind_err
       (orch_begin \<lparr>sm_ptr = sm, args = args_v, arg_count = argc, expected_arg_count = 7,
                    task_window_size = 16384, dep_list_pool_size = 65536,
                    heap_size = 256 * 1024, gm_heap_ptr = heap\<rparr>)
       (\<lambda>rt.
          let arg_a_ptr = unat (args_v ! 0);
              arg_b_ptr = unat (args_v ! 1);
              arg_f_ptr = unat (args_v ! 2);
              size_a = unat (args_v ! 3);
              size_b = unat (args_v ! 4);
              size_f = unat (args_v ! 5);
              SIZE = unat (args_v ! 6 AND 0x7FFFFFFF);
              BYTES = SIZE * 4
          in example_graph arg_a_ptr arg_b_ptr arg_f_ptr size_a size_b size_f BYTES rt)"

lemma aliases_version: "h_version r1 \<noteq> h_version r2 \<Longrightarrow> aliases r1 r2 = False"
  by (simp add: aliases_def)

lemma ext_simps:
  "h_addr (make_tensor_external p s) = p"
  "h_size (make_tensor_external p s) = s"
  "h_version (make_tensor_external p s) = 0"
  by (simp_all add: make_tensor_external_def)

lemmas graph_defs = submit_def submit_task_def window_full_def resolve_param_def
  arena_allocate_def arena_open_scope_def open_scope_def note_task_def
  access_region_def deps_of_entry_def update_entry_def new_entry_def check_overlap_def
  add_edge_def bind_err_def tensor_of_def input_param_def output_param_def scalar_param_def
  make_tensor_def task_completed_def Let_def

lemma aliases_self: "aliases r r \<longleftrightarrow> 0 < h_size r"
  by (simp add: aliases_def ranges_intersect_def)






text \<open>
  The other conditions of the amended claim are needed as well: with no elements
  the regions are empty and nothing aliases; an output tensor of the caller that
  overlaps \<open>c\<close> in the heap depends on the readers of \<open>c\<close> too.
\<close>

lemma example_no_elements:
  "map_sum id edges
     (aicpu_orchestration_entry 0 [4096, 8192, 12288, 64, 64, 64, 0] 7 1048576) = Inr []"
  by (simp add: aicpu_orchestration_entry_def orch_begin_def example_graph_def graph_defs
      arena_init_def ext_simps aliases_version aliases_self aliases_def ranges_intersect_def
      make_tensor_external_def)

lemma example_output_in_heap:
  "map_sum id edges
     (aicpu_orchestration_entry 0 [4096, 8192, 1048576, 64, 64, 64, 16] 7 1048576) =
   Inr [(0, 1), (0, 2), (1, 3), (2, 3), (3, 4), (0, 4), (2, 4), (1, 4)]"
  by (simp add: aicpu_orchestration_entry_def orch_begin_def example_graph_def graph_defs
      arena_init_def ext_simps aliases_version aliases_self aliases_def ranges_intersect_def
      make_tensor_external_def)

subsection \<open>Independent tasks can run in either order\<close>




















end
